theory Spec2Isabelle
  imports Main
begin

section \<open>Data model of \<^verbatim>\<open>batch.go\<close>\<close>

text \<open>
  A Go \<^verbatim>\<open>interface{}\<close> value (a command argument or a reply) is a value tagged with its
  dynamic type. Only the tag \<^verbatim>\<open>[]byte\<close> is inspected by the code (a type assertion in
  \<^verbatim>\<open>Put\<close>); the nil interface is \<open>INil\<close>, every other dynamic type is kept apart by
  its own constructor or lumped into \<open>IOther\<close>.
\<close>

datatype iface = INil | IBytes string | IString string | IInt int | IOther nat

text \<open>
  Go errors. The constructors follow the \<^verbatim>\<open>fmt.Errorf\<close> format strings of \<^verbatim>\<open>Put\<close>;
  \<open>ErrExternal\<close> stands for an error produced by a collaborator (topology, pool,
  connection). A nilable \<^verbatim>\<open>error\<close> is an \<open>error option\<close>, \<open>None\<close> being nil.
\<close>

datatype error =
    ErrPutPing error             \<comment> \<open>\<^verbatim>\<open>"Put PING: %v"\<close>\<close>
  | ErrNotSupported string       \<comment> \<open>\<^verbatim>\<open>"Put: %s not supported"\<close>\<close>
  | ErrNoKey                     \<comment> \<open>\<^verbatim>\<open>"Put: no key found in args"\<close>\<close>
  | ErrPut error                 \<comment> \<open>\<^verbatim>\<open>"Put: %v"\<close>\<close>
  | ErrNotSameSlot string string \<comment> \<open>\<^verbatim>\<open>"transaction command[%v] key[%v] not hashed in the same slot"\<close>\<close>
  | ErrExternal string

text \<open>
  How a call ends: it returns a value, it panics, or it blocks for ever on a channel.
\<close>

datatype 'a go = Return 'a | Panic | Block

text \<open>A \<^verbatim>\<open>*redisNode\<close> is a pointer compared by identity; \<open>None\<close> is the nil pointer.\<close>

type_synonym node_ptr = "nat option"

text \<open>A connection handle of the pool.\<close>

type_synonym conn = nat

record nodeCommand =
  cmd :: string
  args :: "iface list"
  reply :: iface
  cmd_err :: "error option"   \<comment> \<open>field \<^verbatim>\<open>err\<close> of \<^verbatim>\<open>nodeCommand\<close>\<close>

text \<open>
  The channel \<^verbatim>\<open>done\<close> of a group carries no data of interest; \<open>done_chan\<close> counts the
  values sent on it and not yet received.
\<close>

record nodeBatch =
  node :: node_ptr
  cmds :: "nodeCommand list"
  err :: "error option"
  done_chan :: nat

text \<open>
  The fields of \<^verbatim>\<open>Cluster\<close> that \<^verbatim>\<open>batch.go\<close> reads and writes. The \<^verbatim>\<open>cluster\<close> pointer of
  a \<^verbatim>\<open>Batch\<close> refers to a context shared with other batches, so the cluster is threaded
  through \<open>Put\<close> beside the batch instead of being copied into it.
\<close>

record Cluster =
  transactionEnable :: bool
  transactionNode :: node_ptr

record Batch =
  batches :: "nodeBatch list"
  index :: "nat list"

definition NewBatch :: Batch where
  "NewBatch = \<lparr>batches = [], index = []\<rparr>"

section \<open>Collaborators\<close>

text \<open>
  \<^verbatim>\<open>strings.EqualFold\<close> and \<^verbatim>\<open>strings.ToUpper\<close> of the Go standard library are parameters of
  the model: every theorem holds whatever they compute.
\<close>

record strings_pkg =
  EqualFold :: "string \<Rightarrow> string \<Rightarrow> bool"
  ToUpper :: "string \<Rightarrow> string"

text \<open>
  What the topology collaborator answers during one call of \<^verbatim>\<open>Put\<close>: the Go pair
  \<^verbatim>\<open>(node, err)\<close> is \<open>Inl err\<close> when \<^verbatim>\<open>err != nil\<close> and \<open>Inr node\<close> otherwise.
\<close>

record router =
  getRandomNode :: "error + node_ptr"
  getNodeByKey :: "iface \<Rightarrow> error + node_ptr"

text \<open>An instance of the string functions on ASCII letters, for concrete runs.\<close>

definition ascii_upper :: "char \<Rightarrow> char" where
  "ascii_upper ch =
     (case map_of (zip ''abcdefghijklmnopqrstuvwxyz'' ''ABCDEFGHIJKLMNOPQRSTUVWXYZ'') ch of
        None \<Rightarrow> ch | Some u \<Rightarrow> u)"

definition ascii_strings :: strings_pkg where
  "ascii_strings =
     \<lparr>EqualFold = (\<lambda>s t. map ascii_upper s = map ascii_upper t),
      ToUpper = map ascii_upper\<rparr>"

section \<open>\<^verbatim>\<open>Put\<close>\<close>

text \<open>
  Lines 55 to 94: the routing switch. The result is the error returned early
  (\<open>Inl\<close>), or the value of the local \<^verbatim>\<open>node\<close> with which control reaches the enqueue
  step (\<open>Inr\<close>); \<^verbatim>\<open>node\<close> is still nil there for \<^verbatim>\<open>MULTI\<close> and \<^verbatim>\<open>EXEC\<close>. The type
  assertion \<^verbatim>\<open>args[0].([]byte)\<close> in the argument list of the last \<^verbatim>\<open>fmt.Errorf\<close> panics
  unless the key is a \<^verbatim>\<open>[]byte\<close>.
\<close>

definition resolve ::
  "strings_pkg \<Rightarrow> router \<Rightarrow> string \<Rightarrow> iface list \<Rightarrow> Cluster \<Rightarrow> (error + node_ptr) go \<times> Cluster"
where
  "resolve L R verb argv c =
     (if EqualFold L verb ''PING'' then
        (case getRandomNode R of
           Inl e \<Rightarrow> (Return (Inl (ErrPutPing e)), c)
         | Inr n \<Rightarrow> (Return (Inr n), c))
      else
        let u = ToUpper L verb in
        if u = ''MGET'' \<or> u = ''MSET'' \<or> u = ''MSETNX'' then
          (Return (Inl (ErrNotSupported verb)), c)
        else if u = ''MULTI'' then (Return (Inr None), c\<lparr>transactionEnable := True\<rparr>)
        else if u = ''EXEC'' then (Return (Inr None), c\<lparr>transactionEnable := False\<rparr>)
        else
          (case argv of
             [] \<Rightarrow> (Return (Inl ErrNoKey), c)
           | key # _ \<Rightarrow>
               (case getNodeByKey R key of
                  Inl e \<Rightarrow> (Return (Inl (ErrPut e)), c)
                | Inr n \<Rightarrow>
                    if transactionEnable c then
                      if transactionNode c = None then
                        (Return (Inr n), c\<lparr>transactionNode := n\<rparr>)
                      else if transactionNode c \<noteq> n then
                        (case key of
                           IBytes k \<Rightarrow> (Return (Inl (ErrNotSameSlot verb k)), c)
                         | _ \<Rightarrow> (Panic, c))
                      else (Return (Inr n), c)
                    else (Return (Inr n), c))))"

text \<open>
  Lines 96 to 105: the value of \<^verbatim>\<open>i\<close> when the scan loop ends, started at \<open>i\<close> on the
  groups not yet visited: the position of the first group of that node, or the number
  of groups when there is none.
\<close>

fun scan :: "nodeBatch list \<Rightarrow> node_ptr \<Rightarrow> nat \<Rightarrow> nat" where
  "scan [] n i = i"
| "scan (g # gs) n i = (if node g = n then i else scan gs n (Suc i))"

text \<open>Lines 96 to 114: the enqueue step, for the node the switch left in \<^verbatim>\<open>node\<close>.\<close>

definition enqueue :: "node_ptr \<Rightarrow> string \<Rightarrow> iface list \<Rightarrow> Batch \<Rightarrow> Batch" where
  "enqueue n verb argv b =
     (let i = scan (batches b) n 0;
          nc = \<lparr>cmd = verb, args = argv, reply = INil, cmd_err = None\<rparr>
      in if i < length (batches b) then
           b\<lparr>batches := (batches b)[i := (batches b ! i)\<lparr>cmds := cmds (batches b ! i) @ [nc]\<rparr>],
             index := index b @ [i]\<rparr>
         else
           b\<lparr>batches := batches b @ [\<lparr>node = n, cmds = [nc], err = None, done_chan = 0\<rparr>],
             index := index b @ [i]\<rparr>)"

text \<open>
  \<^verbatim>\<open>Put\<close>: the switch, then the enqueue step, then \<^verbatim>\<open>return nil\<close>. \<open>Return None\<close> is the
  nil error.
\<close>

definition Put ::
  "strings_pkg \<Rightarrow> router \<Rightarrow> string \<Rightarrow> iface list \<Rightarrow> Cluster \<times> Batch
     \<Rightarrow> (error option) go \<times> Cluster \<times> Batch"
where
  "Put L R verb argv s =
     (case resolve L R verb argv (fst s) of
        (Return (Inl e), c') \<Rightarrow> (Return (Some e), c', snd s)
      | (Return (Inr n), c') \<Rightarrow> (Return None, c', enqueue n verb argv (snd s))
      | (Panic, c') \<Rightarrow> (Panic, c', snd s)
      | (Block, c') \<Rightarrow> (Block, c', snd s))"

text \<open>
  A caller's sequence of \<^verbatim>\<open>Put\<close> calls on one batch, each with what the topology
  answers during that call. A call that returns an error, or that panics and is
  recovered, has written nothing and leaves the caller free to go on.
\<close>

type_synonym call = "router \<times> string \<times> iface list"

fun Puts ::
  "strings_pkg \<Rightarrow> call list \<Rightarrow> Cluster \<times> Batch \<Rightarrow> (error option) go list \<times> Cluster \<times> Batch"
where
  "Puts L [] s = ([], s)"
| "Puts L ((R, verb, argv) # calls) s =
     (case Put L R verb argv s of
        (r, s') \<Rightarrow> (case Puts L calls s' of (rs, s'') \<Rightarrow> (r # rs, s'')))"

section \<open>\<^verbatim>\<open>doBatch\<close>\<close>

text \<open>
  What the pool and the connection answer during one run of \<^verbatim>\<open>doBatch\<close>: the result of
  \<^verbatim>\<open>getConn\<close>, of \<^verbatim>\<open>flush\<close>, and of the \<open>k\<close>-th call of \<^verbatim>\<open>receive\<close> (counted from 0).
\<close>

record exchange =
  getConn :: "error + conn"
  flush :: "error option"
  receive :: "nat \<Rightarrow> error + iface"

text \<open>What \<^verbatim>\<open>doBatch\<close> does to its collaborators and to the channel, in order.\<close>

datatype event =
    GetConn node_ptr
  | Send conn string "iface list"
  | Flush conn
  | Receive conn
  | Shutdown conn
  | ReleaseConn node_ptr conn
  | Done

text \<open>
  Lines 163 to 173: the read loop from position \<open>i\<close> on, over the commands not yet
  read. It yields the commands as the loop leaves them, the error of the read that
  failed if one did, and the number of calls of \<^verbatim>\<open>receive\<close> made.
\<close>

fun receive_all ::
  "(nat \<Rightarrow> error + iface) \<Rightarrow> nat \<Rightarrow> nodeCommand list \<Rightarrow> nodeCommand list \<times> error option \<times> nat"
where
  "receive_all rcv i [] = ([], None, 0)"
| "receive_all rcv i (c # cs) =
     (case rcv i of
        Inl e \<Rightarrow> (c # cs, Some e, 1)
      | Inr r \<Rightarrow>
          (case receive_all rcv (Suc i) cs of
             (cs', e, k) \<Rightarrow> (c\<lparr>reply := r, cmd_err := None\<rparr> # cs', e, Suc k)))"

definition doBatch :: "exchange \<Rightarrow> nodeBatch \<Rightarrow> nodeBatch \<times> event list" where
  "doBatch X batch =
     (case getConn X of
        Inl e \<Rightarrow>
          (batch\<lparr>err := Some e, done_chan := Suc (done_chan batch)\<rparr>,
           [GetConn (node batch), Done])
      | Inr cn \<Rightarrow>
          let sends = GetConn (node batch) # map (\<lambda>c. Send cn (cmd c) (args c)) (cmds batch) in
          (case flush X of
             Some e \<Rightarrow>
               (batch\<lparr>err := Some e, done_chan := Suc (done_chan batch)\<rparr>,
                sends @ [Flush cn, Shutdown cn, Done])
           | None \<Rightarrow>
               (case receive_all (receive X) 0 (cmds batch) of
                  (cs, Some e, k) \<Rightarrow>
                    (batch\<lparr>cmds := cs, err := Some e, done_chan := Suc (done_chan batch)\<rparr>,
                     sends @ Flush cn # replicate k (Receive cn) @ [Shutdown cn, Done])
                | (cs, None, k) \<Rightarrow>
                    (batch\<lparr>cmds := cs, done_chan := Suc (done_chan batch)\<rparr>,
                     sends @ Flush cn # replicate k (Receive cn)
                       @ [ReleaseConn (node batch) cn, Done]))))"

section \<open>\<^verbatim>\<open>RunBatch\<close>\<close>

text \<open>
  Lines 122 to 124. Each goroutine runs \<^verbatim>\<open>doBatch\<close> on its own group with its own
  connection and touches nothing else, so the groups as they stand once every goroutine
  has reached its send on \<^verbatim>\<open>done\<close> do not depend on the interleaving: group \<open>i\<close> is the
  result of \<open>doBatch\<close> under the exchange \<open>X i\<close> it met.
\<close>

definition run_executors :: "(nat \<Rightarrow> exchange) \<Rightarrow> nodeBatch list \<Rightarrow> nodeBatch list" where
  "run_executors X bs = map (\<lambda>(i, g). fst (doBatch (X i) g)) (enumerate 0 bs)"

text \<open>
  Lines 126 to 128: one receive per group; \<open>None\<close> when a receive finds no value and
  no sender, so that \<^verbatim>\<open>RunBatch\<close> would wait for ever.
\<close>

fun join :: "nodeBatch list \<Rightarrow> nodeBatch list option" where
  "join [] = Some []"
| "join (g # gs) =
     (if done_chan g = 0 then None
      else map_option ((#) (g\<lparr>done_chan := done_chan g - 1\<rparr>)) (join gs))"

text \<open>
  Lines 130 to 140: the walk over \<^verbatim>\<open>index\<close>. Indexing \<^verbatim>\<open>bat.batches[i]\<close> out of range
  and \<^verbatim>\<open>cmds[0]\<close> on an empty queue panic; \<^verbatim>\<open>return nil, err\<close> is the empty list with the
  error.
\<close>

fun reconstruct ::
  "nodeBatch list \<Rightarrow> nat list \<Rightarrow> iface list
     \<Rightarrow> (iface list \<times> error option) go \<times> nodeBatch list"
where
  "reconstruct bs [] replies = (Return (replies, None), bs)"
| "reconstruct bs (i # is) replies =
     (if length bs \<le> i then (Panic, bs)
      else
        (case err (bs ! i) of
           Some e \<Rightarrow> (Return ([], Some e), bs)
         | None \<Rightarrow>
             (case cmds (bs ! i) of
                [] \<Rightarrow> (Panic, bs)
              | c # cs \<Rightarrow> reconstruct (bs[i := (bs ! i)\<lparr>cmds := cs\<rparr>]) is (replies @ [reply c]))))"

definition RunBatch ::
  "(nat \<Rightarrow> exchange) \<Rightarrow> Batch \<Rightarrow> (iface list \<times> error option) go \<times> Batch"
where
  "RunBatch X bat =
     (let bs = run_executors X (batches bat) in
      case join bs of
        None \<Rightarrow> (Block, bat\<lparr>batches := bs\<rparr>)
      | Some bs' \<Rightarrow>
          (case reconstruct bs' (index bat) [] of
             (r, bs'') \<Rightarrow> (r, bat\<lparr>batches := bs''\<rparr>)))"

section \<open>Vocabulary of the properties\<close>

text \<open>
  The classes of command names that the switch of \<^verbatim>\<open>Put\<close> tells apart, read off its
  tests in their order: \<^verbatim>\<open>PING\<close> is tried first, by \<^verbatim>\<open>EqualFold\<close>, the others on the
  upper-cased name.
\<close>

definition unsupported :: "strings_pkg \<Rightarrow> string \<Rightarrow> bool" where
  "unsupported L verb \<longleftrightarrow>
     \<not> EqualFold L verb ''PING'' \<and> ToUpper L verb \<in> {''MGET'', ''MSET'', ''MSETNX''}"

definition is_MULTI :: "strings_pkg \<Rightarrow> string \<Rightarrow> bool" where
  "is_MULTI L verb \<longleftrightarrow> \<not> EqualFold L verb ''PING'' \<and> ToUpper L verb = ''MULTI''"

definition is_EXEC :: "strings_pkg \<Rightarrow> string \<Rightarrow> bool" where
  "is_EXEC L verb \<longleftrightarrow> \<not> EqualFold L verb ''PING'' \<and> ToUpper L verb = ''EXEC''"

definition keyed :: "strings_pkg \<Rightarrow> string \<Rightarrow> bool" where
  "keyed L verb \<longleftrightarrow>
     \<not> EqualFold L verb ''PING''
     \<and> ToUpper L verb \<notin> {''MGET'', ''MSET'', ''MSETNX'', ''MULTI'', ''EXEC''}"

text \<open>
  The first \<open>n\<close> reads of an exchange all succeed; a trace event that hands a connection
  back to the pool; the commands \<open>cs\<close> with the replies of the reads \<open>i\<close>, \<open>i + 1\<close>, ...
  written into them as line 172 does.
\<close>

definition reads_ok :: "(nat \<Rightarrow> error + iface) \<Rightarrow> nat \<Rightarrow> bool" where
  "reads_ok rcv n \<longleftrightarrow> (\<forall>j<n. \<not> isl (rcv j))"

fun is_release :: "event \<Rightarrow> bool" where
  "is_release (ReleaseConn n cn) = True"
| "is_release _ = False"

definition assigned :: "(nat \<Rightarrow> error + iface) \<Rightarrow> nat \<Rightarrow> nodeCommand list \<Rightarrow> nodeCommand list" where
  "assigned rcv i cs = map (\<lambda>(j, c). c\<lparr>reply := projr (rcv j), cmd_err := None\<rparr>) (enumerate i cs)"

text \<open>
  The calls of a sequence that get past the switch, in order, each with the node the
  switch resolved for it: these are the calls of \<^verbatim>\<open>Put\<close> that return nil.
\<close>

type_synonym entry = "node_ptr \<times> string \<times> iface list"

fun journal :: "strings_pkg \<Rightarrow> call list \<Rightarrow> Cluster \<Rightarrow> entry list" where
  "journal L [] c = []"
| "journal L ((R, verb, argv) # calls) c =
     (case resolve L R verb argv c of
        (Return (Inr n), c') \<Rightarrow> (n, verb, argv) # journal L calls c'
      | (_, c') \<Rightarrow> journal L calls c')"

text \<open>The distinct elements of a list in the order of their first occurrence.\<close>

definition first_touch :: "'a list \<Rightarrow> 'a list" where
  "first_touch xs = rev (remdups (rev xs))"

text \<open>
  The number of earlier entries of the index that name the same group as entry \<open>i\<close>:
  the place in that group's queue of the command of entry \<open>i\<close>.
\<close>

definition slot :: "nat list \<Rightarrow> nat \<Rightarrow> nat" where
  "slot idx i = count_list (take i idx) (idx ! i)"

text \<open>
  What holds of a batch on which the calls \<open>J\<close> of \<^verbatim>\<open>Put\<close> have succeeded, in that order,
  and nothing else was done.
\<close>

definition built :: "entry list \<Rightarrow> Batch \<Rightarrow> bool" where
  "built J b \<longleftrightarrow>
     length (index b) = length J
     \<and> map node (batches b) = first_touch (map fst J)
     \<and> (\<forall>g<length (batches b).
           length (cmds (batches b ! g)) = count_list (index b) g
           \<and> err (batches b ! g) = None \<and> done_chan (batches b ! g) = 0)
     \<and> (\<forall>i<length J.
           index b ! i < length (batches b)
           \<and> node (batches b ! (index b ! i)) = fst (J ! i)
           \<and> cmds (batches b ! (index b ! i)) ! slot (index b) i =
               \<lparr>cmd = fst (snd (J ! i)), args = snd (snd (J ! i)), reply = INil, cmd_err = None\<rparr>)"

text \<open>A group as \<^verbatim>\<open>RunBatch\<close> finds it after the join: run by its executor, its signal received.\<close>

definition settled :: "(nat \<Rightarrow> exchange) \<Rightarrow> nodeBatch list \<Rightarrow> nodeBatch list" where
  "settled X bs = map (\<lambda>g. g\<lparr>done_chan := done_chan g - 1\<rparr>) (run_executors X bs)"

section \<open>Concrete runs\<close>

text \<open>
  A cluster context on which no transaction was ever opened, and a stub router with two
  nodes: the key \<^verbatim>\<open>a\<close> (as a string or as bytes) lives on node 1, every other key on
  node 2.
\<close>

definition fresh :: Cluster where
  "fresh = \<lparr>transactionEnable = False, transactionNode = None\<rparr>"

definition stub :: router where
  "stub =
     \<lparr>getRandomNode = Inr (Some 1),
      getNodeByKey =
        (\<lambda>k. if k = IString ''a'' \<or> k = IBytes ''a'' then Inr (Some 1) else Inr (Some 2))\<rparr>"

text \<open>A cluster context inside a transaction that an earlier keyed command pinned to node 1.\<close>

definition pinned_1 :: Cluster where
  "pinned_1 = \<lparr>transactionEnable = True, transactionNode = Some 1\<rparr>"

text \<open>
  A group of three commands for node 1, and an exchange on connection 7 whose flush
  succeeds and whose second read fails.
\<close>

definition group_1 :: nodeBatch where
  "group_1 =
     \<lparr>node = Some 1,
      cmds = [\<lparr>cmd = ''SET'', args = [IString ''a'', IString ''1''], reply = INil, cmd_err = None\<rparr>,
              \<lparr>cmd = ''GET'', args = [IString ''a''], reply = INil, cmd_err = None\<rparr>,
              \<lparr>cmd = ''DEL'', args = [IString ''a''], reply = INil, cmd_err = None\<rparr>],
      err = None, done_chan = 0\<rparr>"

definition broken_read :: exchange where
  "broken_read =
     \<lparr>getConn = Inr 7, flush = None,
      receive = (\<lambda>k. if k = 1 then Inl (ErrExternal ''EOF'') else Inr (IString ''OK''))\<rparr>"

text \<open>
  Five keyed commands on the nodes 1, 2, 1, 1, 2 in that order, with an unsupported
  command among them.
\<close>

definition five_calls :: "call list" where
  "five_calls =
     [(stub, ''SET'', [IString ''a'', IString ''1'']),
      (stub, ''SET'', [IString ''b'', IString ''2'']),
      (stub, ''MGET'', [IString ''a'', IString ''b'']),
      (stub, ''GET'', [IString ''a'']),
      (stub, ''INCR'', [IBytes ''a'']),
      (stub, ''GET'', [IString ''b''])]"

text \<open>
  Exchanges for the groups of a batch: \<open>echo\<close> answers the \<open>k\<close>-th read of group \<open>g\<close> with
  the integer \<open>10 * g + k\<close>; \<open>flush_fails_0\<close> does the same except that the flush of
  group 0 fails.
\<close>

definition echo :: "nat \<Rightarrow> exchange" where
  "echo g = \<lparr>getConn = Inr g, flush = None, receive = (\<lambda>k. Inr (IInt (int (10 * g + k))))\<rparr>"

definition flush_fails_0 :: "nat \<Rightarrow> exchange" where
  "flush_fails_0 g =
     \<lparr>getConn = Inr g, flush = (if g = 0 then Some (ErrExternal ''broken pipe'') else None),
      receive = (\<lambda>k. Inr (IInt (int (10 * g + k))))\<rparr>"

text \<open>The batch that \<open>five_calls\<close> builds.\<close>

definition five_batch :: Batch where
  "five_batch =
     \<lparr>batches =
        [\<lparr>node = Some 1,
          cmds = [\<lparr>cmd = ''SET'', args = [IString ''a'', IString ''1''], reply = INil, cmd_err = None\<rparr>,
                  \<lparr>cmd = ''GET'', args = [IString ''a''], reply = INil, cmd_err = None\<rparr>,
                  \<lparr>cmd = ''INCR'', args = [IBytes ''a''], reply = INil, cmd_err = None\<rparr>],
          err = None, done_chan = 0\<rparr>,
         \<lparr>node = Some 2,
          cmds = [\<lparr>cmd = ''SET'', args = [IString ''b'', IString ''2''], reply = INil, cmd_err = None\<rparr>,
                  \<lparr>cmd = ''GET'', args = [IString ''b''], reply = INil, cmd_err = None\<rparr>],
          err = None, done_chan = 0\<rparr>],
      index = [0, 1, 0, 0, 1]\<rparr>"

section \<open>The scan loop\<close>

lemmas ascii_simps = ascii_strings_def ascii_upper_def

lemma scan_bounds: "i \<le> scan bs n i \<and> scan bs n i \<le> i + length bs"
proof (induction bs arbitrary: i)
  case Nil
  then show ?case by simp
next
  case (Cons g gs)
  show ?case using Cons.IH [of "Suc i"] by auto
qed

lemma scan_found_iff: "scan bs n i < i + length bs \<longleftrightarrow> n \<in> node ` set bs"
proof (induction bs arbitrary: i)
  case Nil
  then show ?case by simp
next
  case (Cons g gs)
  show ?case using Cons.IH [of "Suc i"] by auto
qed

lemma scan_node: "scan bs n i < i + length bs \<Longrightarrow> node (bs ! (scan bs n i - i)) = n"
proof (induction bs arbitrary: i)
  case Nil
  then show ?case by simp
next
  case (Cons g gs)
  show ?case
  proof (cases "node g = n")
    case True
    then show ?thesis by simp
  next
    case False
    have le: "Suc i \<le> scan gs n (Suc i)" using scan_bounds [of "Suc i" gs n] by simp
    from False Cons.prems have "scan gs n (Suc i) < Suc i + length gs" by simp
    from Cons.IH [OF this] have "node (gs ! (scan gs n (Suc i) - Suc i)) = n" .
    moreover from le have "scan gs n (Suc i) - i = Suc (scan gs n (Suc i) - Suc i)" by arith
    ultimately show ?thesis using False by simp
  qed
qed

lemma scan_absent: "n \<notin> node ` set bs \<Longrightarrow> scan bs n i = i + length bs"
  using scan_found_iff [of bs n i] scan_bounds [of i bs n] by arith

section \<open>Rejected commands\<close>

text \<open>
  C2. For every batch and cluster state, \<^verbatim>\<open>Put\<close> of a command that upper-cases to
  \<^verbatim>\<open>MGET\<close>, \<^verbatim>\<open>MSET\<close> or \<^verbatim>\<open>MSETNX\<close>, with any arguments, or of a keyed command with an empty
  argument list, returns an error and leaves the cluster and the whole batch as they
  were; in particular the number of groups and the length of the index are unchanged.
\<close>

theorem Put_rejected_unchanged:
  assumes "unsupported L verb \<or> (keyed L verb \<and> argv = [])"
  shows "Put L R verb argv (c, b) =
           (Return (Some (if unsupported L verb then ErrNotSupported verb else ErrNoKey)), c, b)"
  using assms
  by (auto simp: Put_def resolve_def unsupported_def keyed_def Let_def)

theorem Put_rejected_unchanged_witness:
  "(unsupported ascii_strings ''mSet''
      \<or> (keyed ascii_strings ''mSet'' \<and> [IString ''k'', IString ''v''] = []))
   \<and> Put ascii_strings stub ''mSet'' [IString ''k'', IString ''v''] (fresh, NewBatch) =
       (Return (Some (ErrNotSupported ''mSet'')), fresh, NewBatch)"
  using Put_rejected_unchanged
    [of ascii_strings "''mSet''" "[IString ''k'', IString ''v'']" stub fresh NewBatch]
  by (simp add: unsupported_def keyed_def ascii_simps)

section \<open>\<^verbatim>\<open>MULTI\<close> and \<^verbatim>\<open>EXEC\<close>\<close>

lemma resolve_MULTI_EXEC:
  assumes "is_MULTI L verb \<or> is_EXEC L verb"
  shows "resolve L R verb argv c = (Return (Inr None), c\<lparr>transactionEnable := is_MULTI L verb\<rparr>)"
  using assms by (auto simp: resolve_def is_MULTI_def is_EXEC_def Let_def)

section \<open>The enqueue step\<close>

lemma enqueue_index: "index (enqueue n verb argv b) = index b @ [scan (batches b) n 0]"
  by (simp add: enqueue_def Let_def)

lemma enqueue_length:
  "length (batches (enqueue n verb argv b)) =
     (if n \<in> node ` set (batches b) then length (batches b) else Suc (length (batches b)))"
  using scan_found_iff [of "batches b" n 0] by (simp add: enqueue_def Let_def)

lemma enqueue_target:
  "scan (batches b) n 0 < length (batches (enqueue n verb argv b))
   \<and> node (batches (enqueue n verb argv b) ! scan (batches b) n 0) = n
   \<and> cmds (batches (enqueue n verb argv b) ! scan (batches b) n 0) =
       (if n \<in> node ` set (batches b) then cmds (batches b ! scan (batches b) n 0) else [])
         @ [\<lparr>cmd = verb, args = argv, reply = INil, cmd_err = None\<rparr>]"
proof (cases "n \<in> node ` set (batches b)")
  case True
  then have lt: "scan (batches b) n 0 < length (batches b)"
    using scan_found_iff [of "batches b" n 0] by simp
  with scan_node [of "batches b" n 0] have "node (batches b ! scan (batches b) n 0) = n" by simp
  with lt True show ?thesis by (simp add: enqueue_def Let_def)
next
  case False
  then have "scan (batches b) n 0 = length (batches b)"
    using scan_absent [of n "batches b" 0] by simp
  with False show ?thesis by (simp add: enqueue_def Let_def)
qed

lemma enqueue_others:
  "g < length (batches b) \<Longrightarrow> g \<noteq> scan (batches b) n 0
     \<Longrightarrow> batches (enqueue n verb argv b) ! g = batches b ! g"
  by (simp add: enqueue_def Let_def nth_append)

text \<open>
  C4, as the code has it. \<^verbatim>\<open>Put\<close> of \<^verbatim>\<open>MULTI\<close> or \<^verbatim>\<open>EXEC\<close>, with or without arguments,
  resolves no node, sets (\<^verbatim>\<open>MULTI\<close>) or clears (\<^verbatim>\<open>EXEC\<close>) the transaction flag, leaves the
  pinned node alone and returns no error; the enqueue step then runs with the nil node:
  the command joins the group whose node is nil, created at the end of the groups when
  there is none, the position of that group is appended to the index, and every other
  group is left as it was.
\<close>

theorem Put_MULTI_EXEC_enqueues:
  assumes "is_MULTI L verb \<or> is_EXEC L verb"
      and "Put L R verb argv (c, b) = (r, c', b')"
      and "i = scan (batches b) None 0"
  shows "r = Return None
       \<and> c' = c\<lparr>transactionEnable := is_MULTI L verb\<rparr>
       \<and> index b' = index b @ [i]
       \<and> length (batches b') =
           (if None \<in> node ` set (batches b) then length (batches b) else Suc (length (batches b)))
       \<and> i < length (batches b')
       \<and> node (batches b' ! i) = None
       \<and> cmds (batches b' ! i) =
           (if None \<in> node ` set (batches b) then cmds (batches b ! i) else [])
             @ [\<lparr>cmd = verb, args = argv, reply = INil, cmd_err = None\<rparr>]
       \<and> (\<forall>g < length (batches b). g \<noteq> i \<longrightarrow> batches b' ! g = batches b ! g)"
proof -
  from assms(2) resolve_MULTI_EXEC [OF assms(1), of R argv c]
  have r: "r = Return None" and c': "c' = c\<lparr>transactionEnable := is_MULTI L verb\<rparr>"
    and b': "b' = enqueue None verb argv b"
    by (simp_all add: Put_def)
  show ?thesis
    unfolding r c' b' assms(3)
    using enqueue_target [of b None verb argv] enqueue_others [of _ b None verb argv]
    by (simp add: enqueue_index enqueue_length)
qed

theorem Put_MULTI_EXEC_enqueues_witness:
  "(is_MULTI ascii_strings ''MULTI'' \<or> is_EXEC ascii_strings ''MULTI'')
   \<and> Put ascii_strings stub ''MULTI'' [] (fresh, NewBatch) =
       (Return None, fresh\<lparr>transactionEnable := True\<rparr>,
        \<lparr>batches = [\<lparr>node = None,
                      cmds = [\<lparr>cmd = ''MULTI'', args = [], reply = INil, cmd_err = None\<rparr>],
                      err = None, done_chan = 0\<rparr>],
         index = [0]\<rparr>)
   \<and> index \<lparr>batches = [\<lparr>node = None,
                      cmds = [\<lparr>cmd = ''MULTI'', args = [], reply = INil, cmd_err = None\<rparr>],
                      err = None, done_chan = 0\<rparr>],
         index = [0]\<rparr> = index NewBatch @ [0]"
proof -
  have m: "is_MULTI ascii_strings ''MULTI'' \<or> is_EXEC ascii_strings ''MULTI''"
    by (simp add: is_MULTI_def ascii_simps)
  have p: "Put ascii_strings stub ''MULTI'' [] (fresh, NewBatch) =
       (Return None, fresh\<lparr>transactionEnable := True\<rparr>,
        \<lparr>batches = [\<lparr>node = None,
                      cmds = [\<lparr>cmd = ''MULTI'', args = [], reply = INil, cmd_err = None\<rparr>],
                      err = None, done_chan = 0\<rparr>],
         index = [0]\<rparr>)"
    by (simp add: Put_def resolve_def enqueue_def NewBatch_def fresh_def ascii_simps)
  have i: "(0::nat) = scan (batches NewBatch) None 0" by (simp add: NewBatch_def)
  from Put_MULTI_EXEC_enqueues [OF m p i] m p show ?thesis by simp
qed

text \<open>
  C4, as stated, fails on a new batch: after \<^verbatim>\<open>Put("MULTI")\<close>, which returns nil, the
  batch has one group and one index entry.
\<close>

theorem Put_MULTI_enqueue_counterexample:
  "is_MULTI ascii_strings ''MULTI''
   \<and> fst (Put ascii_strings stub ''MULTI'' [] (fresh, NewBatch)) = Return None
   \<and> length (batches (snd (snd (Put ascii_strings stub ''MULTI'' [] (fresh, NewBatch)))))
       \<noteq> length (batches NewBatch)
   \<and> index (snd (snd (Put ascii_strings stub ''MULTI'' [] (fresh, NewBatch)))) \<noteq> index NewBatch"
  by (simp add: is_MULTI_def Put_def resolve_def enqueue_def NewBatch_def fresh_def ascii_simps)

section \<open>Transactions\<close>

lemma resolve_pin_stable:
  "transactionNode c = Some a \<Longrightarrow> transactionNode (snd (resolve L R verb argv c)) = Some a"
  by (auto simp: resolve_def Let_def split: sum.splits list.splits iface.splits)

lemma Put_pin_stable:
  "transactionNode c = Some a \<Longrightarrow> transactionNode (fst (snd (Put L R verb argv (c, b)))) = Some a"
  using resolve_pin_stable [of c a L R verb argv]
  by (auto simp: Put_def split: prod.splits go.splits sum.splits)

lemma Puts_pin_stable:
  "transactionNode c = Some a \<Longrightarrow> transactionNode (fst (snd (Puts L calls (c, b)))) = Some a"
proof (induction calls arbitrary: c b)
  case Nil
  then show ?case by simp
next
  case (Cons x calls)
  obtain R verb argv where x: "x = (R, verb, argv)" by (cases x)
  obtain r c' b' where p: "Put L R verb argv (c, b) = (r, c', b')" by (cases "Put L R verb argv (c, b)")
  with Put_pin_stable [OF Cons.prems, of L R verb argv b] have "transactionNode c' = Some a" by simp
  from Cons.IH [OF this, of b'] show ?case by (auto simp: x p split: prod.splits)
qed

lemma Put_pins_first:
  assumes "keyed L verb" "transactionEnable c" "transactionNode c = None"
      and "getNodeByKey R key = Inr n"
  shows "Put L R verb (key # rest) (c, b) =
           (Return None, c\<lparr>transactionNode := n\<rparr>, enqueue n verb (key # rest) b)"
  using assms by (simp add: Put_def resolve_def keyed_def Let_def)

lemma Put_other_node:
  assumes "keyed L verb" "transactionEnable c" "transactionNode c = Some a"
      and "getNodeByKey R key = Inr n" "n \<noteq> Some a"
  shows "Put L R verb (key # rest) (c, b) =
           ((case key of IBytes k \<Rightarrow> Return (Some (ErrNotSameSlot verb k)) | _ \<Rightarrow> Panic), c, b)"
  using assms by (auto simp: Put_def resolve_def keyed_def Let_def split: iface.splits)

text \<open>
  With a key passed as \<^verbatim>\<open>[]byte\<close> the transaction check behaves as C3 says: once a keyed
  command has pinned node \<open>a\<close>, the pin stays through any later calls, and a keyed
  command resolving elsewhere while the flag is set is refused with nothing written.
\<close>

lemma Put_same_slot_violation_bytes:
  assumes "keyed L verb" "transactionEnable c" "transactionNode c = None"
      and "getNodeByKey R key = Inr (Some a)"
      and "Put L R verb (key # rest) (c, b) = (r, c1, b1)"
      and "Puts L calls (c1, b1) = (rs, c2, b2)"
      and "keyed L verb'" "transactionEnable c2"
      and "getNodeByKey R' (IBytes k) = Inr n" "n \<noteq> Some a"
  shows "r = Return None \<and> transactionNode c1 = Some a \<and> transactionNode c2 = Some a
       \<and> Put L R' verb' (IBytes k # rest') (c2, b2) =
           (Return (Some (ErrNotSameSlot verb' k)), c2, b2)"
proof -
  from Put_pins_first [OF assms(1-4), of rest b] assms(5)
  have r: "r = Return None" and c1: "transactionNode c1 = Some a" by auto
  from Puts_pin_stable [OF c1, of L calls b1] assms(6) have c2: "transactionNode c2 = Some a" by simp
  from Put_other_node [OF assms(7,8) c2 assms(9,10), of rest' b2] r c1 c2 show ?thesis by simp
qed

text \<open>
  C3 at a key passed as a Go string, on a new batch and a fresh cluster context:
  \<^verbatim>\<open>MULTI\<close>, then \<^verbatim>\<open>SET a 1\<close> routed to node 1, then \<^verbatim>\<open>SET b 2\<close> routed to node 2. The third
  call does not return the same-slot error: building the error message it asserts that
  the key is a \<^verbatim>\<open>[]byte\<close>, and panics.
\<close>

theorem Put_same_slot_string_key_panics:
  "getNodeByKey stub (IString ''a'') = Inr (Some 1)
   \<and> getNodeByKey stub (IString ''b'') = Inr (Some 2)
   \<and> fst (Puts ascii_strings
        [(stub, ''MULTI'', []),
         (stub, ''SET'', [IString ''a'', IString ''1'']),
         (stub, ''SET'', [IString ''b'', IString ''2''])] (fresh, NewBatch))
       = [Return None, Return None, Panic]"
  by (simp add: Put_def resolve_def enqueue_def NewBatch_def fresh_def stub_def ascii_simps)

text \<open>
  C10. \<^verbatim>\<open>Put\<close> of \<^verbatim>\<open>EXEC\<close> clears the transaction flag and nothing else of the cluster
  context: a node pinned by an earlier transaction stays pinned, through \<^verbatim>\<open>EXEC\<close> and
  through whatever calls follow. A later \<^verbatim>\<open>MULTI\<close> on that context therefore starts with
  the old pin, and the next keyed command that resolves to another node fails the
  same-slot check with nothing enqueued (by the same-slot error for a \<^verbatim>\<open>[]byte\<close> key, by
  the panic of the type assertion for any other key).
\<close>

theorem EXEC_keeps_pinned_node:
  assumes "transactionNode c = Some a"
      and "is_EXEC L e" "Put L R1 e argv1 (c, b) = (r1, c1, b1)"
      and "Puts L calls (c1, b1') = (rs, c2, b2)"
      and "is_MULTI L m" "Put L R2 m argv2 (c2, b2') = (r3, c3, b3)"
      and "keyed L verb" "getNodeByKey R key = Inr n" "n \<noteq> Some a"
  shows "r1 = Return None \<and> c1 = c\<lparr>transactionEnable := False\<rparr>
       \<and> transactionNode c2 = Some a
       \<and> r3 = Return None \<and> c3 = c2\<lparr>transactionEnable := True\<rparr>
       \<and> transactionNode c3 = Some a
       \<and> Put L R verb (key # rest) (c3, b4) =
           ((case key of IBytes k \<Rightarrow> Return (Some (ErrNotSameSlot verb k)) | _ \<Rightarrow> Panic), c3, b4)"
proof -
  from resolve_MULTI_EXEC [of L e R1 argv1 c] assms(2,3)
  have r1: "r1 = Return None" and c1: "c1 = c\<lparr>transactionEnable := False\<rparr>"
    by (auto simp: Put_def is_MULTI_def is_EXEC_def)
  from c1 assms(1) have "transactionNode c1 = Some a" by simp
  from Puts_pin_stable [OF this, of L calls b1'] assms(4)
  have c2: "transactionNode c2 = Some a" by simp
  from resolve_MULTI_EXEC [of L m R2 argv2 c2] assms(5,6)
  have r3: "r3 = Return None" and c3: "c3 = c2\<lparr>transactionEnable := True\<rparr>"
    by (auto simp: Put_def)
  from c3 c2 have en: "transactionEnable c3" and pin: "transactionNode c3 = Some a" by simp_all
  from Put_other_node [OF assms(7) en pin assms(8,9), of rest b4] r1 c1 c2 r3 c3 pin
  show ?thesis by simp
qed

theorem EXEC_keeps_pinned_node_witness:
  "transactionNode pinned_1 = Some 1
   \<and> is_EXEC ascii_strings ''exec'' \<and> is_MULTI ascii_strings ''multi'' \<and> keyed ascii_strings ''get''
   \<and> getNodeByKey stub (IBytes ''b'') = Inr (Some 2)
   \<and> fst (snd (Put ascii_strings stub ''exec'' [] (pinned_1, NewBatch)))
       = \<lparr>transactionEnable = False, transactionNode = Some 1\<rparr>
   \<and> Put ascii_strings stub ''get'' [IBytes ''b''] (pinned_1, NewBatch) =
       (Return (Some (ErrNotSameSlot ''get'' ''b'')), pinned_1, NewBatch)"
proof -
  have 1: "transactionNode pinned_1 = Some 1" by (simp add: pinned_1_def)
  have 2: "is_EXEC ascii_strings ''exec''" by (simp add: is_EXEC_def ascii_simps)
  obtain r1 c1 b1 where 3: "Put ascii_strings stub ''exec'' [] (pinned_1, NewBatch) = (r1, c1, b1)"
    by (cases "Put ascii_strings stub ''exec'' [] (pinned_1, NewBatch)")
  have 4: "Puts ascii_strings [] (c1, NewBatch) = ([], c1, NewBatch)" by simp
  have 5: "is_MULTI ascii_strings ''multi''" by (simp add: is_MULTI_def ascii_simps)
  obtain r3 c3 b3 where 6: "Put ascii_strings stub ''multi'' [] (c1, NewBatch) = (r3, c3, b3)"
    by (cases "Put ascii_strings stub ''multi'' [] (c1, NewBatch)")
  have 7: "keyed ascii_strings ''get''" by (simp add: keyed_def ascii_simps)
  have 8: "getNodeByKey stub (IBytes ''b'') = Inr (Some 2)" by (simp add: stub_def)
  have 9: "Some (2::nat) \<noteq> Some 1" by simp
  from EXEC_keeps_pinned_node [OF 1 2 3 4 5 6 7 8 9, of "[]" NewBatch] 1 2 3 5 7 8
  show ?thesis by (auto simp: pinned_1_def)
qed

section \<open>The read loop\<close>

lemma assigned_Nil [simp]: "assigned rcv i [] = []"
  by (simp add: assigned_def)

lemma assigned_Cons [simp]:
  "assigned rcv i (c # cs) = c\<lparr>reply := projr (rcv i), cmd_err := None\<rparr> # assigned rcv (Suc i) cs"
  by (simp add: assigned_def)

lemma length_assigned [simp]: "length (assigned rcv i cs) = length cs"
  by (simp add: assigned_def)

lemma nth_assigned:
  "j < length cs \<Longrightarrow> assigned rcv i cs ! j = (cs ! j)\<lparr>reply := projr (rcv (i + j)), cmd_err := None\<rparr>"
  by (simp add: assigned_def nth_enumerate_eq)

lemma receive_all_ok:
  "\<forall>j<length cs. \<not> isl (rcv (i + j)) \<Longrightarrow> receive_all rcv i cs = (assigned rcv i cs, None, length cs)"
proof (induction cs arbitrary: i)
  case Nil
  then show ?case by simp
next
  case (Cons c cs)
  from Cons.prems have "\<not> isl (rcv (i + 0))" by blast
  then obtain r where r: "rcv i = Inr r" by (cases "rcv i") auto
  have "\<forall>j<length cs. \<not> isl (rcv (Suc i + j))"
  proof (intro allI impI)
    fix j assume "j < length cs"
    then have "Suc j < length (c # cs)" by simp
    with Cons.prems have "\<not> isl (rcv (i + Suc j))" by blast
    then show "\<not> isl (rcv (Suc i + j))" by simp
  qed
  from Cons.IH [OF this] r show ?case by simp
qed

lemma receive_all_fail:
  "k < length cs \<Longrightarrow> \<forall>j<k. \<not> isl (rcv (i + j)) \<Longrightarrow> rcv (i + k) = Inl e
     \<Longrightarrow> receive_all rcv i cs = (assigned rcv i (take k cs) @ drop k cs, Some e, Suc k)"
proof (induction cs arbitrary: i k)
  case Nil
  then show ?case by simp
next
  case (Cons c cs)
  show ?case
  proof (cases k)
    case 0
    with Cons.prems show ?thesis by simp
  next
    case (Suc k')
    from Cons.prems Suc have "\<not> isl (rcv (i + 0))" by blast
    then obtain r where r: "rcv i = Inr r" by (cases "rcv i") auto
    have ok: "\<forall>j<k'. \<not> isl (rcv (Suc i + j))"
    proof (intro allI impI)
      fix j assume "j < k'"
      then have "Suc j < k" using Suc by simp
      with Cons.prems have "\<not> isl (rcv (i + Suc j))" by blast
      then show "\<not> isl (rcv (Suc i + j))" by simp
    qed
    from Cons.prems Suc have "k' < length cs" and "rcv (Suc i + k') = Inl e" by simp_all
    from Cons.IH [OF this(1) ok this(2)] r Suc show ?thesis by simp
  qed
qed

lemma receive_all_None:
  "fst (snd (receive_all rcv i cs)) = None \<Longrightarrow> j < length cs \<Longrightarrow> \<not> isl (rcv (i + j))"
proof (induction cs arbitrary: i j)
  case Nil
  then show ?case by simp
next
  case (Cons c cs)
  from Cons.prems(1) obtain r where r: "rcv i = Inr r" by (cases "rcv i") auto
  with Cons.prems(1) have rest: "fst (snd (receive_all rcv (Suc i) cs)) = None"
    by (simp split: prod.splits)
  show ?case
  proof (cases j)
    case 0
    with r show ?thesis by simp
  next
    case (Suc j')
    with Cons.prems(2) have "j' < length cs" by simp
    from Cons.IH [OF rest this] Suc show ?thesis by simp
  qed
qed

lemma receive_all_cases:
  "(reads_ok rcv (length cs) \<and> receive_all rcv 0 cs = (assigned rcv 0 cs, None, length cs))
   \<or> (\<exists>k e. k < length cs \<and> reads_ok rcv k \<and> rcv k = Inl e
         \<and> receive_all rcv 0 cs = (assigned rcv 0 (take k cs) @ drop k cs, Some e, Suc k))"
proof (cases "reads_ok rcv (length cs)")
  case True
  with receive_all_ok [of cs rcv 0] show ?thesis by (simp add: reads_ok_def)
next
  case False
  then have ex: "\<exists>k. k < length cs \<and> isl (rcv k)" by (auto simp: reads_ok_def)
  define k where "k = (LEAST k. k < length cs \<and> isl (rcv k))"
  from ex have k: "k < length cs \<and> isl (rcv k)" unfolding k_def by (rule LeastI_ex)
  have least: "\<forall>j<k. \<not> isl (rcv (0 + j))"
  proof (intro allI impI)
    fix j assume "j < k"
    from not_less_Least [OF this [unfolded k_def]] \<open>j < k\<close> k show "\<not> isl (rcv (0 + j))" by auto
  qed
  from k obtain e where e: "rcv (0 + k) = Inl e" by (cases "rcv k") auto
  from receive_all_fail [OF _ least e, of cs] k least e show ?thesis
    by (auto simp: reads_ok_def)
qed

section \<open>\<^verbatim>\<open>doBatch\<close>: the exit paths\<close>

lemma doBatch_no_conn:
  "getConn X = Inl e \<Longrightarrow>
     doBatch X g = (g\<lparr>err := Some e, done_chan := Suc (done_chan g)\<rparr>, [GetConn (node g), Done])"
  by (simp add: doBatch_def)

lemma doBatch_flush_failed:
  "getConn X = Inr cn \<Longrightarrow> flush X = Some e \<Longrightarrow>
     doBatch X g =
       (g\<lparr>err := Some e, done_chan := Suc (done_chan g)\<rparr>,
        (GetConn (node g) # map (\<lambda>c. Send cn (cmd c) (args c)) (cmds g))
          @ [Flush cn, Shutdown cn, Done])"
  by (simp add: doBatch_def)

lemma doBatch_read_failed:
  assumes "getConn X = Inr cn" "flush X = None"
      and "k < length (cmds g)" "reads_ok (receive X) k" "receive X k = Inl e"
  shows "doBatch X g =
       (g\<lparr>cmds := assigned (receive X) 0 (take k (cmds g)) @ drop k (cmds g),
          err := Some e, done_chan := Suc (done_chan g)\<rparr>,
        (GetConn (node g) # map (\<lambda>c. Send cn (cmd c) (args c)) (cmds g))
          @ Flush cn # replicate (Suc k) (Receive cn) @ [Shutdown cn, Done])"
proof -
  from assms(4) have "\<forall>j<k. \<not> isl (receive X (0 + j))" by (simp add: reads_ok_def)
  from receive_all_fail [OF assms(3) this, of e] assms(5)
  have "receive_all (receive X) 0 (cmds g) =
          (assigned (receive X) 0 (take k (cmds g)) @ drop k (cmds g), Some e, Suc k)" by simp
  with assms(1,2) show ?thesis by (simp add: doBatch_def)
qed

lemma doBatch_success:
  assumes "getConn X = Inr cn" "flush X = None" "reads_ok (receive X) (length (cmds g))"
  shows "doBatch X g =
       (g\<lparr>cmds := assigned (receive X) 0 (cmds g), done_chan := Suc (done_chan g)\<rparr>,
        (GetConn (node g) # map (\<lambda>c. Send cn (cmd c) (args c)) (cmds g))
          @ Flush cn # replicate (length (cmds g)) (Receive cn) @ [ReleaseConn (node g) cn, Done])"
proof -
  from assms(3) have "\<forall>j<length (cmds g). \<not> isl (receive X (0 + j))" by (simp add: reads_ok_def)
  from receive_all_ok [OF this] assms(1,2) show ?thesis by (simp add: doBatch_def)
qed

lemma doBatch_paths:
  obtains (no_conn) e where "getConn X = Inl e"
  | (flush_failed) cn e where "getConn X = Inr cn" "flush X = Some e"
  | (read_failed) cn k e where "getConn X = Inr cn" "flush X = None"
      "k < length (cmds g)" "reads_ok (receive X) k" "receive X k = Inl e"
  | (success) cn where "getConn X = Inr cn" "flush X = None"
      "reads_ok (receive X) (length (cmds g))"
proof (cases "getConn X")
  case (Inl e)
  then show ?thesis by (rule no_conn)
next
  case (Inr cn)
  show ?thesis
  proof (cases "flush X")
    case (Some e)
    with Inr show ?thesis by (rule flush_failed)
  next
    case None
    from receive_all_cases [of "receive X" "cmds g"] show ?thesis
    proof (elim disjE conjE exE)
      assume "reads_ok (receive X) (length (cmds g))"
      with Inr None show ?thesis by (rule success)
    next
      fix k e
      assume "k < length (cmds g)" "reads_ok (receive X) k" "receive X k = Inl e"
      with Inr None show ?thesis by (rule read_failed)
    qed
  qed
qed

lemma count_Done_sends [simp]: "count_list (map (\<lambda>c. Send cn (cmd c) (args c)) cs) Done = 0"
  by (induction cs) simp_all

lemma count_Done_receives [simp]: "count_list (replicate k (Receive cn)) Done = 0"
  by (induction k) simp_all

text \<open>
  C7. Whatever the pool and the connection answer, \<^verbatim>\<open>doBatch\<close> sends on the channel
  \<^verbatim>\<open>done\<close> of its group exactly once, as its last action: after a failed \<^verbatim>\<open>getConn\<close>, after
  a failed flush, after a failed read and after full success alike.
\<close>

theorem doBatch_signals_once:
  "count_list (snd (doBatch X g)) Done = 1
   \<and> last (snd (doBatch X g)) = Done
   \<and> done_chan (fst (doBatch X g)) = Suc (done_chan g)"
proof (cases rule: doBatch_paths [where X = X and g = g])
  case (no_conn e)
  from doBatch_no_conn [OF this] show ?thesis by simp
next
  case (flush_failed cn e)
  from doBatch_flush_failed [OF this] show ?thesis by simp
next
  case (read_failed cn k e)
  from doBatch_read_failed [OF this] show ?thesis by simp
next
  case (success cn)
  from doBatch_success [OF this] show ?thesis by simp
qed

theorem doBatch_signals_once_witness:
  "snd (doBatch broken_read group_1) =
     [GetConn (Some 1), Send 7 ''SET'' [IString ''a'', IString ''1''], Send 7 ''GET'' [IString ''a''],
      Send 7 ''DEL'' [IString ''a''], Flush 7, Receive 7, Receive 7, Shutdown 7, Done]
   \<and> count_list (snd (doBatch broken_read group_1)) Done = 1
   \<and> done_chan (fst (doBatch broken_read group_1)) = 1"
proof -
  have "snd (doBatch broken_read group_1) =
     [GetConn (Some 1), Send 7 ''SET'' [IString ''a'', IString ''1''], Send 7 ''GET'' [IString ''a''],
      Send 7 ''DEL'' [IString ''a''], Flush 7, Receive 7, Receive 7, Shutdown 7, Done]"
    by (simp add: doBatch_def broken_read_def group_1_def)
  moreover have "done_chan group_1 = 0" by (simp add: group_1_def)
  ultimately show ?thesis using doBatch_signals_once [of broken_read group_1] by simp
qed

section \<open>\<^verbatim>\<open>doBatch\<close>: connections and replies\<close>

lemma reads_ok_broken: "k < n \<Longrightarrow> rcv k = Inl e \<Longrightarrow> \<not> reads_ok rcv n"
  by (auto simp: reads_ok_def)

lemma no_release_sends [simp]: "\<not> list_ex is_release (map (\<lambda>c. Send cn (cmd c) (args c)) cs)"
  by (induction cs) simp_all

lemma no_release_receives [simp]: "\<not> list_ex is_release (replicate k (Receive cn))"
  by (induction k) simp_all

lemma no_shutdown_sends [simp]: "Shutdown cn' \<notin> set (map (\<lambda>c. Send cn (cmd c) (args c)) cs)"
  by auto

text \<open>
  C6. In \<^verbatim>\<open>doBatch\<close>, a connection on which the flush or one of the reads failed is shut
  down and is not released to the pool: the trace holds its \<open>Shutdown\<close> and no
  \<open>ReleaseConn\<close> at all. Conversely a \<open>ReleaseConn\<close> in the trace means that a connection
  was acquired, that the flush and every read succeeded, and that this connection was
  not shut down.
\<close>

theorem doBatch_release_only_on_success:
  assumes "doBatch X g = (g', tr)"
  shows "(getConn X = Inr cn \<and> (flush X \<noteq> None \<or> \<not> reads_ok (receive X) (length (cmds g)))
            \<longrightarrow> Shutdown cn \<in> set tr \<and> \<not> list_ex is_release tr)
       \<and> (list_ex is_release tr
            \<longrightarrow> flush X = None \<and> reads_ok (receive X) (length (cmds g))
                \<and> (\<exists>cn'. getConn X = Inr cn' \<and> ReleaseConn (node g) cn' \<in> set tr
                      \<and> Shutdown cn' \<notin> set tr))"
proof (cases rule: doBatch_paths [where X = X and g = g])
  case (no_conn e)
  from doBatch_no_conn [OF this] assms no_conn show ?thesis by auto
next
  case (flush_failed cn1 e)
  from doBatch_flush_failed [OF this] assms flush_failed show ?thesis by auto
next
  case (read_failed cn1 k e)
  from reads_ok_broken [of k "length (cmds g)" "receive X" e] read_failed(3,5)
  have "\<not> reads_ok (receive X) (length (cmds g))" by simp
  with doBatch_read_failed [OF read_failed] assms read_failed(1,2) show ?thesis by auto
next
  case (success cn1)
  from doBatch_success [OF this] assms success show ?thesis by auto
qed

theorem doBatch_release_only_on_success_witness:
  "getConn broken_read = Inr 7 \<and> \<not> reads_ok (receive broken_read) (length (cmds group_1))
   \<and> Shutdown 7 \<in> set (snd (doBatch broken_read group_1))
   \<and> \<not> list_ex is_release (snd (doBatch broken_read group_1))"
proof -
  have 1: "getConn broken_read = Inr 7" by (simp add: broken_read_def)
  have "receive broken_read 1 = Inl (ErrExternal ''EOF'')" by (simp add: broken_read_def)
  from reads_ok_broken [of 1 "length (cmds group_1)" "receive broken_read" "ErrExternal ''EOF''"] this
  have 2: "\<not> reads_ok (receive broken_read) (length (cmds group_1))" by (simp add: group_1_def)
  obtain g' tr where 3: "doBatch broken_read group_1 = (g', tr)" by (cases "doBatch broken_read group_1")
  from doBatch_release_only_on_success [OF 3, of 7] 1 2 3 show ?thesis by simp
qed

text \<open>
  C8. When the flush succeeded and the read at position \<open>k\<close> is the one that fails, the
  error of the group is that read error; the commands before \<open>k\<close> hold the replies read
  for them; the command at \<open>k\<close> and all later ones are exactly as they were before the
  call, so their \<^verbatim>\<open>reply\<close> and \<^verbatim>\<open>err\<close> are still unset when they were unset before, as
  \<^verbatim>\<open>Put\<close> leaves them.
\<close>

theorem doBatch_read_failure_frame:
  assumes "getConn X = Inr cn" "flush X = None"
      and "k < length (cmds g)" "reads_ok (receive X) k" "receive X k = Inl e"
      and "doBatch X g = (g', tr)"
  shows "err g' = Some e
       \<and> length (cmds g') = length (cmds g)
       \<and> (\<forall>j<k. cmds g' ! j = (cmds g ! j)\<lparr>reply := projr (receive X j), cmd_err := None\<rparr>)
       \<and> (\<forall>j. k \<le> j \<and> j < length (cmds g) \<longrightarrow> cmds g' ! j = cmds g ! j)
       \<and> ((\<forall>c \<in> set (cmds g). reply c = INil \<and> cmd_err c = None) \<longrightarrow>
            (\<forall>j. k \<le> j \<and> j < length (cmds g) \<longrightarrow>
                 reply (cmds g' ! j) = INil \<and> cmd_err (cmds g' ! j) = None))"
proof -
  from doBatch_read_failed [OF assms(1-5)] assms(6)
  have g': "g' = g\<lparr>cmds := assigned (receive X) 0 (take k (cmds g)) @ drop k (cmds g),
                  err := Some e, done_chan := Suc (done_chan g)\<rparr>" by simp
  have len: "length (assigned (receive X) 0 (take k (cmds g))) = k" using assms(3) by simp
  have before: "cmds g' ! j = (cmds g ! j)\<lparr>reply := projr (receive X j), cmd_err := None\<rparr>"
    if "j < k" for j
    using that assms(3) nth_assigned [of j "take k (cmds g)" "receive X" 0]
    by (simp add: g' nth_append)
  have after: "cmds g' ! j = cmds g ! j" if "k \<le> j" "j < length (cmds g)" for j
    using that len by (simp add: g' nth_append)
  have unset: "reply (cmds g' ! j) = INil \<and> cmd_err (cmds g' ! j) = None"
    if "\<forall>c \<in> set (cmds g). reply c = INil \<and> cmd_err c = None" "k \<le> j" "j < length (cmds g)" for j
    using after [OF that(2,3)] that(1,3) by simp
  from before after unset show ?thesis using assms(3) by (simp add: g')
qed

theorem doBatch_read_failure_frame_witness:
  "getConn broken_read = Inr 7 \<and> flush broken_read = None \<and> 1 < length (cmds group_1)
   \<and> reads_ok (receive broken_read) 1 \<and> receive broken_read 1 = Inl (ErrExternal ''EOF'')
   \<and> err (fst (doBatch broken_read group_1)) = Some (ErrExternal ''EOF'')
   \<and> map reply (cmds (fst (doBatch broken_read group_1))) = [IString ''OK'', INil, INil]"
proof -
  have 1: "getConn broken_read = Inr 7" and 2: "flush broken_read = None"
    and 5: "receive broken_read 1 = Inl (ErrExternal ''EOF'')"
    by (simp_all add: broken_read_def)
  have 3: "1 < length (cmds group_1)" by (simp add: group_1_def)
  have 4: "reads_ok (receive broken_read) 1" by (simp add: reads_ok_def broken_read_def)
  obtain g' tr where 6: "doBatch broken_read group_1 = (g', tr)" by (cases "doBatch broken_read group_1")
  have "map reply (cmds (fst (doBatch broken_read group_1))) = [IString ''OK'', INil, INil]"
    by (simp add: doBatch_def broken_read_def group_1_def)
  with doBatch_read_failure_frame [OF 1 2 3 4 5 6] 1 2 3 4 5 6 show ?thesis by simp
qed

section \<open>The batch that a sequence of calls builds\<close>

lemma first_touch_Nil [simp]: "first_touch [] = []"
  by (simp add: first_touch_def)

lemma first_touch_snoc:
  "first_touch (xs @ [x]) = (if x \<in> set xs then first_touch xs else first_touch xs @ [x])"
  by (simp add: first_touch_def)

lemma set_first_touch [simp]: "set (first_touch xs) = set xs"
  by (simp add: first_touch_def)

lemma distinct_first_touch [simp]: "distinct (first_touch xs)"
  by (simp add: first_touch_def)

lemma slot_snoc: "i < length idx \<Longrightarrow> slot (idx @ [g]) i = slot idx i"
  by (simp add: slot_def nth_append)

lemma slot_last: "slot (idx @ [g]) (length idx) = count_list idx g"
  by (simp add: slot_def)

lemma slot_less: "i < length idx \<Longrightarrow> slot idx i < count_list idx (idx ! i)"
proof -
  assume "i < length idx"
  then have "idx = take i idx @ idx ! i # drop (Suc i) idx" by (rule id_take_nth_drop)
  then have "count_list idx (idx ! i) =
               count_list (take i idx @ idx ! i # drop (Suc i) idx) (idx ! i)" by simp
  then show ?thesis by (simp add: slot_def)
qed

lemma enqueue_hit:
  assumes "n \<in> node ` set (batches b)"
  defines "i \<equiv> scan (batches b) n 0"
  shows "i < length (batches b) \<and> node (batches b ! i) = n
       \<and> enqueue n verb argv b =
           b\<lparr>batches := (batches b)[i := (batches b ! i)
                \<lparr>cmds := cmds (batches b ! i) @ [\<lparr>cmd = verb, args = argv, reply = INil, cmd_err = None\<rparr>]\<rparr>],
             index := index b @ [i]\<rparr>"
proof -
  from assms(1) have lt: "i < length (batches b)"
    unfolding i_def using scan_found_iff [of "batches b" n 0] by simp
  with scan_node [of "batches b" n 0] have "node (batches b ! i) = n" by (simp add: i_def)
  with lt show ?thesis by (simp add: enqueue_def Let_def i_def)
qed

lemma enqueue_miss:
  assumes "n \<notin> node ` set (batches b)"
  shows "enqueue n verb argv b =
           b\<lparr>batches := batches b @
                [\<lparr>node = n, cmds = [\<lparr>cmd = verb, args = argv, reply = INil, cmd_err = None\<rparr>],
                  err = None, done_chan = 0\<rparr>],
             index := index b @ [length (batches b)]\<rparr>"
  using scan_absent [OF assms, of 0] by (simp add: enqueue_def Let_def)

lemma built_nodes: "built J b \<Longrightarrow> node ` set (batches b) = fst ` set J"
proof -
  assume "built J b"
  then have "map node (batches b) = first_touch (map fst J)" by (simp add: built_def)
  then have "set (map node (batches b)) = set (first_touch (map fst J))" by simp
  then show ?thesis by simp
qed

lemma built_distinct: "built J b \<Longrightarrow> distinct (map node (batches b))"
  by (simp add: built_def)

lemma built_same_node:
  assumes "built J b" "g < length (batches b)" "h < length (batches b)"
      and "node (batches b ! g) = node (batches b ! h)"
  shows "g = h"
proof -
  from assms(2-4) have "map node (batches b) ! g = map node (batches b) ! h" by simp
  moreover from assms(2,3) have "g < length (map node (batches b))" "h < length (map node (batches b))"
    by simp_all
  ultimately show ?thesis
    using nth_eq_iff_index_eq [OF built_distinct [OF assms(1)]] by blast
qed

lemma built_length: "built J b \<Longrightarrow> length (index b) = length J"
  by (simp add: built_def)

lemma built_group:
  "built J b \<Longrightarrow> g < length (batches b) \<Longrightarrow>
     length (cmds (batches b ! g)) = count_list (index b) g
     \<and> err (batches b ! g) = None \<and> done_chan (batches b ! g) = 0"
  by (simp add: built_def)

lemma built_entry:
  "built J b \<Longrightarrow> i < length J \<Longrightarrow>
     index b ! i < length (batches b)
     \<and> node (batches b ! (index b ! i)) = fst (J ! i)
     \<and> cmds (batches b ! (index b ! i)) ! slot (index b) i =
         \<lparr>cmd = fst (snd (J ! i)), args = snd (snd (J ! i)), reply = INil, cmd_err = None\<rparr>"
  by (simp add: built_def)

lemma built_index_valid: "built J b \<Longrightarrow> i \<in> set (index b) \<Longrightarrow> i < length (batches b)"
proof -
  assume b: "built J b" and "i \<in> set (index b)"
  then obtain k where "k < length (index b)" "index b ! k = i" by (auto simp: in_set_conv_nth)
  with built_entry [OF b, of k] built_length [OF b] show ?thesis by simp
qed

lemma built_slot:
  assumes "built J b" "i < length J"
  shows "slot (index b) i < length (cmds (batches b ! (index b ! i)))"
proof -
  from assms have "i < length (index b)" by (simp add: built_length)
  from slot_less [OF this] built_entry [OF assms] built_group [OF assms(1), of "index b ! i"]
  show ?thesis by simp
qed

lemma builtI:
  assumes "length (index b) = length J"
      and "map node (batches b) = first_touch (map fst J)"
      and "\<And>g. g < length (batches b) \<Longrightarrow>
             length (cmds (batches b ! g)) = count_list (index b) g
             \<and> err (batches b ! g) = None \<and> done_chan (batches b ! g) = 0"
      and "\<And>i. i < length J \<Longrightarrow>
             index b ! i < length (batches b)
             \<and> node (batches b ! (index b ! i)) = fst (J ! i)
             \<and> cmds (batches b ! (index b ! i)) ! slot (index b) i =
                 \<lparr>cmd = fst (snd (J ! i)), args = snd (snd (J ! i)), reply = INil, cmd_err = None\<rparr>"
  shows "built J b"
  unfolding built_def using assms by blast

lemma built_NewBatch: "built [] NewBatch"
  by (simp add: built_def NewBatch_def)

lemma built_enqueue_hit:
  assumes b: "built J b" and hit: "n \<in> node ` set (batches b)"
  shows "built (J @ [(n, verb, argv)]) (enqueue n verb argv b)"
proof -
  define i where "i = scan (batches b) n 0"
  define nc where "nc = \<lparr>cmd = verb, args = argv, reply = INil, cmd_err = None\<rparr>"
  define gi where "gi = (batches b ! i)\<lparr>cmds := cmds (batches b ! i) @ [nc]\<rparr>"
  from enqueue_hit [OF hit, of verb argv]
  have i: "i < length (batches b)" and ni: "node (batches b ! i) = n"
    and e: "enqueue n verb argv b = b\<lparr>batches := (batches b)[i := gi], index := index b @ [i]\<rparr>"
    by (simp_all add: i_def gi_def nc_def)
  have len: "length (index b) = length J" using b by (rule built_length)
  have nodes: "map node ((batches b)[i := gi]) = map node (batches b)"
    using i by (simp add: map_update gi_def list_update_same_conv)
  from hit built_nodes [OF b] have "n \<in> set (map fst J)" by simp
  then have ft: "first_touch (map fst (J @ [(n, verb, argv)])) = first_touch (map fst J)"
    by (simp add: first_touch_snoc)
  have grp: "length (cmds ((batches b)[i := gi] ! g)) = count_list (index b @ [i]) g
           \<and> err ((batches b)[i := gi] ! g) = None \<and> done_chan ((batches b)[i := gi] ! g) = 0"
    if "g < length (batches b)" for g
    using built_group [OF b that] that by (cases "g = i") (simp_all add: gi_def)
  have ent: "(index b @ [i]) ! k < length (batches b)
           \<and> node ((batches b)[i := gi] ! ((index b @ [i]) ! k)) = fst ((J @ [(n, verb, argv)]) ! k)
           \<and> cmds ((batches b)[i := gi] ! ((index b @ [i]) ! k)) ! slot (index b @ [i]) k =
               \<lparr>cmd = fst (snd ((J @ [(n, verb, argv)]) ! k)),
                args = snd (snd ((J @ [(n, verb, argv)]) ! k)), reply = INil, cmd_err = None\<rparr>"
    if "k < Suc (length J)" for k
  proof (cases "k < length J")
    case True
    then have k: "k < length (index b)" by (simp add: len)
    from built_entry [OF b True] built_slot [OF b True] True k i
    show ?thesis
      by (cases "index b ! k = i") (simp_all add: nth_append slot_snoc gi_def)
  next
    case False
    with that have k: "k = length J" by simp
    have 1: "(index b @ [i]) ! k = i" by (simp add: k len [symmetric])
    have 2: "(J @ [(n, verb, argv)]) ! k = (n, verb, argv)" by (simp add: k)
    have 3: "slot (index b @ [i]) k = length (cmds (batches b ! i))"
      using built_group [OF b i] slot_last [of "index b" i] by (simp add: k len [symmetric])
    from i ni show ?thesis unfolding 1 2 3 by (simp add: gi_def nc_def)
  qed
  from nodes ft b
  have nd: "map node ((batches b)[i := gi]) = first_touch (map fst (J @ [(n, verb, argv)]))"
    by (simp add: built_def)
  have sb: "batches (b\<lparr>batches := (batches b)[i := gi], index := index b @ [i]\<rparr>) = (batches b)[i := gi]"
    and si: "index (b\<lparr>batches := (batches b)[i := gi], index := index b @ [i]\<rparr>) = index b @ [i]"
    by simp_all
  show ?thesis unfolding e
  proof (rule builtI; (unfold sb si)?)
    show "length (index b @ [i]) = length (J @ [(n, verb, argv)])" by (simp add: len)
    show "map node ((batches b)[i := gi]) = first_touch (map fst (J @ [(n, verb, argv)]))"
      by (rule nd)
  next
    fix g
    assume "g < length ((batches b)[i := gi])"
    then have "g < length (batches b)" by simp
    then show "length (cmds ((batches b)[i := gi] ! g)) = count_list (index b @ [i]) g
          \<and> err ((batches b)[i := gi] ! g) = None \<and> done_chan ((batches b)[i := gi] ! g) = 0"
      by (rule grp)
  next
    fix k
    assume "k < length (J @ [(n, verb, argv)])"
    then have "k < Suc (length J)" by simp
    from ent [OF this] have "(index b @ [i]) ! k < length (batches b)" by blast
    then have "(index b @ [i]) ! k < length ((batches b)[i := gi])" by simp
    with ent [OF \<open>k < Suc (length J)\<close>]
    show "(index b @ [i]) ! k < length ((batches b)[i := gi])
          \<and> node ((batches b)[i := gi] ! ((index b @ [i]) ! k)) = fst ((J @ [(n, verb, argv)]) ! k)
          \<and> cmds ((batches b)[i := gi] ! ((index b @ [i]) ! k)) ! slot (index b @ [i]) k
              = \<lparr>cmd = fst (snd ((J @ [(n, verb, argv)]) ! k)),
                 args = snd (snd ((J @ [(n, verb, argv)]) ! k)), reply = INil, cmd_err = None\<rparr>"
      by blast
  qed
qed

lemma built_enqueue_miss:
  assumes b: "built J b" and miss: "n \<notin> node ` set (batches b)"
  shows "built (J @ [(n, verb, argv)]) (enqueue n verb argv b)"
proof -
  define nc where "nc = \<lparr>cmd = verb, args = argv, reply = INil, cmd_err = None\<rparr>"
  define gn where "gn = \<lparr>node = n, cmds = [nc], err = None, done_chan = 0\<rparr>"
  define m where "m = length (batches b)"
  have m: "length (batches b) = m" by (simp add: m_def)
  from enqueue_miss [OF miss, of verb argv]
  have e: "enqueue n verb argv b = b\<lparr>batches := batches b @ [gn], index := index b @ [m]\<rparr>"
    by (simp add: gn_def nc_def m_def)
  have len: "length (index b) = length J" using b by (rule built_length)
  from miss built_nodes [OF b] have "n \<notin> set (map fst J)" by simp
  then have ft: "first_touch (map fst (J @ [(n, verb, argv)])) = first_touch (map fst J) @ [n]"
    by (simp add: first_touch_snoc)
  have "m \<notin> set (index b)"
  proof
    assume "m \<in> set (index b)"
    from built_index_valid [OF b this] m show False by simp
  qed
  then have zero: "count_list (index b) m = 0" by (simp add: count_list_0_iff)
  have gn_sel: "node gn = n" "cmds gn = [nc]" "err gn = None" "done_chan gn = 0"
    by (simp_all add: gn_def)
  have grp: "length (cmds ((batches b @ [gn]) ! g)) = count_list (index b @ [m]) g
           \<and> err ((batches b @ [gn]) ! g) = None \<and> done_chan ((batches b @ [gn]) ! g) = 0"
    if "g < Suc m" for g
  proof (cases "g < m")
    case True
    then have 1: "(batches b @ [gn]) ! g = batches b ! g" by (simp add: nth_append m)
    from True have 2: "count_list (index b @ [m]) g = count_list (index b) g" by simp
    from True built_group [OF b, of g] show ?thesis unfolding 1 2 by (simp add: m)
  next
    case False
    with that have g: "g = m" by simp
    have 1: "(batches b @ [gn]) ! m = gn" using nth_append_length [of "batches b" gn] by (simp add: m)
    have 2: "count_list (index b @ [m]) m = 1" using zero by simp
    show ?thesis unfolding g 1 2 by (simp add: gn_sel)
  qed
  have ent: "(index b @ [m]) ! k < Suc m
           \<and> node ((batches b @ [gn]) ! ((index b @ [m]) ! k)) = fst ((J @ [(n, verb, argv)]) ! k)
           \<and> cmds ((batches b @ [gn]) ! ((index b @ [m]) ! k)) ! slot (index b @ [m]) k =
               \<lparr>cmd = fst (snd ((J @ [(n, verb, argv)]) ! k)),
                args = snd (snd ((J @ [(n, verb, argv)]) ! k)), reply = INil, cmd_err = None\<rparr>"
    if "k < Suc (length J)" for k
  proof (cases "k < length J")
    case True
    then have k: "k < length (index b)" by (simp add: len)
    from built_entry [OF b True] have lt: "index b ! k < m" by (simp add: m)
    have 1: "(index b @ [m]) ! k = index b ! k" using k by (simp add: nth_append)
    have 2: "(J @ [(n, verb, argv)]) ! k = J ! k" using True by (simp add: nth_append)
    have 3: "slot (index b @ [m]) k = slot (index b) k" using k by (rule slot_snoc)
    have 4: "(batches b @ [gn]) ! (index b ! k) = batches b ! (index b ! k)"
      using lt by (simp add: nth_append m)
    from built_entry [OF b True] lt show ?thesis unfolding 1 2 3 4 by simp
  next
    case False
    with that have k: "k = length J" by simp
    have 1: "(index b @ [m]) ! k = m" using nth_append_length [of "index b" m] by (simp add: k len)
    have 2: "(J @ [(n, verb, argv)]) ! k = (n, verb, argv)" by (simp add: k)
    have 3: "slot (index b @ [m]) k = 0"
      using zero slot_last [of "index b" m] by (simp add: k len)
    have 4: "(batches b @ [gn]) ! m = gn" using nth_append_length [of "batches b" gn] by (simp add: m)
    show ?thesis unfolding 1 2 3 4 by (simp add: gn_sel nc_def)
  qed
  from ft b
  have nd: "map node (batches b @ [gn]) = first_touch (map fst (J @ [(n, verb, argv)]))"
    by (simp add: built_def gn_sel)
  have lb: "length (batches b @ [gn]) = Suc m" by (simp add: m)
  have sb: "batches (b\<lparr>batches := batches b @ [gn], index := index b @ [m]\<rparr>) = batches b @ [gn]"
    and si: "index (b\<lparr>batches := batches b @ [gn], index := index b @ [m]\<rparr>) = index b @ [m]"
    by simp_all
  show ?thesis unfolding e
  proof (rule builtI; (unfold sb si)?)
    show "length (index b @ [m]) = length (J @ [(n, verb, argv)])" by (simp add: len)
    show "map node (batches b @ [gn]) = first_touch (map fst (J @ [(n, verb, argv)]))"
      by (rule nd)
  next
    fix g
    assume "g < length (batches b @ [gn])"
    then have "g < Suc m" by (simp only: lb)
    then show "length (cmds ((batches b @ [gn]) ! g)) = count_list (index b @ [m]) g
          \<and> err ((batches b @ [gn]) ! g) = None \<and> done_chan ((batches b @ [gn]) ! g) = 0"
      by (rule grp)
  next
    fix k
    assume "k < length (J @ [(n, verb, argv)])"
    then have "k < Suc (length J)" by simp
    from ent [OF this]
    show "(index b @ [m]) ! k < length (batches b @ [gn])
          \<and> node ((batches b @ [gn]) ! ((index b @ [m]) ! k)) = fst ((J @ [(n, verb, argv)]) ! k)
          \<and> cmds ((batches b @ [gn]) ! ((index b @ [m]) ! k)) ! slot (index b @ [m]) k
              = \<lparr>cmd = fst (snd ((J @ [(n, verb, argv)]) ! k)),
                 args = snd (snd ((J @ [(n, verb, argv)]) ! k)), reply = INil, cmd_err = None\<rparr>"
      unfolding lb .
  qed
qed

lemma built_enqueue: "built J b \<Longrightarrow> built (J @ [(n, verb, argv)]) (enqueue n verb argv b)"
  by (cases "n \<in> node ` set (batches b)") (simp_all add: built_enqueue_hit built_enqueue_miss)

section \<open>Sequences of calls\<close>

lemma Put_journal:
  "Put L R verb argv (c, b) = (r, c', b') \<Longrightarrow>
     (\<exists>n. resolve L R verb argv c = (Return (Inr n), c') \<and> r = Return None
           \<and> b' = enqueue n verb argv b)
     \<or> (r \<noteq> Return None \<and> b' = b \<and> snd (resolve L R verb argv c) = c'
          \<and> (\<forall>n. fst (resolve L R verb argv c) \<noteq> Return (Inr n)))"
  by (auto simp: Put_def split: prod.splits go.splits sum.splits)

lemma journal_step:
  "resolve L R verb argv c = (Return (Inr n), c') \<Longrightarrow>
     journal L ((R, verb, argv) # calls) c = (n, verb, argv) # journal L calls c'"
  by simp

lemma journal_skip:
  "\<forall>n. fst (resolve L R verb argv c) \<noteq> Return (Inr n) \<Longrightarrow>
     journal L ((R, verb, argv) # calls) c = journal L calls (snd (resolve L R verb argv c))"
  by (auto split: prod.splits go.splits sum.splits)

lemma Puts_built:
  "built J b \<Longrightarrow> Puts L calls (c, b) = (rs, c', b') \<Longrightarrow>
     built (J @ journal L calls c) b' \<and> count_list rs (Return None) = length (journal L calls c)"
proof (induction calls arbitrary: J b c rs c' b')
  case Nil
  then show ?case by simp
next
  case (Cons x calls)
  obtain R verb argv where x: "x = (R, verb, argv)" by (cases x)
  obtain r c1 b1 where p: "Put L R verb argv (c, b) = (r, c1, b1)"
    by (cases "Put L R verb argv (c, b)")
  obtain rs1 c2 b2 where ps: "Puts L calls (c1, b1) = (rs1, c2, b2)"
    by (cases "Puts L calls (c1, b1)")
  from Cons.prems(2) have rs: "rs = r # rs1" and c': "c' = c2" and b': "b' = b2"
    by (simp_all add: x p ps)
  from Put_journal [OF p] show ?case
  proof (elim disjE exE conjE)
    fix n
    assume res: "resolve L R verb argv c = (Return (Inr n), c1)" and r: "r = Return None"
      and b1: "b1 = enqueue n verb argv b"
    from built_enqueue [OF Cons.prems(1), of n verb argv] b1
    have "built (J @ [(n, verb, argv)]) b1" by simp
    from Cons.IH [OF this ps]
    have "built (J @ (n, verb, argv) # journal L calls c1) b2"
      and "count_list rs1 (Return None) = length (journal L calls c1)" by simp_all
    with journal_step [OF res, of calls] show ?thesis by (simp add: x rs r b')
  next
    assume r: "r \<noteq> Return None" and b1: "b1 = b" and c1: "snd (resolve L R verb argv c) = c1"
      and no: "\<forall>n. fst (resolve L R verb argv c) \<noteq> Return (Inr n)"
    from Cons.prems(1) b1 have "built J b1" by simp
    from Cons.IH [OF this ps] journal_skip [OF no, of calls] r
    show ?thesis by (simp add: x rs b' c1)
  qed
qed

lemma Puts_append:
  "Puts L (xs @ ys) s =
     (case Puts L xs s of (rs1, s1) \<Rightarrow> case Puts L ys s1 of (rs2, s2) \<Rightarrow> (rs1 @ rs2, s2))"
proof (induction xs arbitrary: s)
  case Nil
  then show ?case by (simp split: prod.splits)
next
  case (Cons x xs)
  obtain R verb argv where x: "x = (R, verb, argv)" by (cases x)
  show ?case by (simp add: x Cons.IH split: prod.splits)
qed

lemma first_touch_take: "take (length (first_touch xs)) (first_touch (xs @ ys)) = first_touch xs"
proof (induction ys rule: rev_induct)
  case Nil
  then show ?case by simp
next
  case (snoc y ys)
  from snoc.IH have "length (take (length (first_touch xs)) (first_touch (xs @ ys)))
                       = length (first_touch xs)" by simp
  then have le: "length (first_touch xs) \<le> length (first_touch (xs @ ys))" by simp
  have "first_touch (xs @ ys @ [y]) = first_touch ((xs @ ys) @ [y])" by simp
  also have "\<dots> = (if y \<in> set (xs @ ys) then first_touch (xs @ ys) else first_touch (xs @ ys) @ [y])"
    by (rule first_touch_snoc)
  finally show ?case using snoc.IH le by simp
qed

text \<open>
  C9. After any sequence of \<^verbatim>\<open>Put\<close> calls on a new batch: the index has one entry for every
  call that returned nil; every entry is a position in the groups list; the nodes of the
  groups are the distinct nodes resolved for those calls, in the order in which they were
  first touched; entry \<open>i\<close> names the group of the node the \<open>i\<close>-th of those calls was
  routed to; and the groups after any first \<open>k\<close> calls are an initial segment of the final
  ones, node for node.
\<close>

theorem Puts_index_invariant:
  assumes "Puts L calls (c, NewBatch) = (rs, c', b)"
  shows "length (index b) = count_list rs (Return None)
       \<and> (\<forall>i \<in> set (index b). i < length (batches b))
       \<and> map node (batches b) = first_touch (map fst (journal L calls c))
       \<and> (\<forall>i < length (index b). node (batches b ! (index b ! i)) = fst (journal L calls c ! i))
       \<and> (\<forall>k. map node (batches (snd (snd (Puts L (take k calls) (c, NewBatch)))))
               = take (length (batches (snd (snd (Puts L (take k calls) (c, NewBatch))))))
                   (map node (batches b)))"
proof -
  from Puts_built [OF built_NewBatch assms]
  have b: "built (journal L calls c) b"
    and n: "count_list rs (Return None) = length (journal L calls c)" by simp_all
  have 1: "length (index b) = count_list rs (Return None)" using built_length [OF b] n by simp
  have 2: "\<forall>i \<in> set (index b). i < length (batches b)" using built_index_valid [OF b] by blast
  have 3: "map node (batches b) = first_touch (map fst (journal L calls c))"
    using b by (simp add: built_def)
  have 4: "\<forall>i < length (index b). node (batches b ! (index b ! i)) = fst (journal L calls c ! i)"
    using built_entry [OF b] built_length [OF b] by simp
  have 5: "map node (batches (snd (snd (Puts L (take k calls) (c, NewBatch)))))
               = take (length (batches (snd (snd (Puts L (take k calls) (c, NewBatch))))))
                   (map node (batches b))" for k
  proof -
    obtain rs1 c1 b1 where p1: "Puts L (take k calls) (c, NewBatch) = (rs1, c1, b1)"
      by (cases "Puts L (take k calls) (c, NewBatch)")
    obtain rs2 c2 b2 where p2: "Puts L (drop k calls) (c1, b1) = (rs2, c2, b2)"
      by (cases "Puts L (drop k calls) (c1, b1)")
    from Puts_append [of L "take k calls" "drop k calls" "(c, NewBatch)"] assms p1 p2
    have b2: "b2 = b" by simp
    from Puts_built [OF built_NewBatch p1] have b1: "built (journal L (take k calls) c) b1" by simp
    from Puts_built [OF b1 p2] b2
    have "built (journal L (take k calls) c @ journal L (drop k calls) c1) b" by simp
    then have f: "map node (batches b) =
        first_touch (map fst (journal L (take k calls) c) @ map fst (journal L (drop k calls) c1))"
      by (simp add: built_def)
    from b1 have f1: "map node (batches b1) = first_touch (map fst (journal L (take k calls) c))"
      by (simp add: built_def)
    then have "length (batches b1) = length (first_touch (map fst (journal L (take k calls) c)))"
      by (metis length_map)
    with first_touch_take [of "map fst (journal L (take k calls) c)"
        "map fst (journal L (drop k calls) c1)"] f f1
    show ?thesis by (simp add: p1)
  qed
  from 1 2 3 4 5 show ?thesis by blast
qed

lemma five_calls_run:
  "fst (Puts ascii_strings five_calls (fresh, NewBatch)) =
     [Return None, Return None, Return (Some (ErrNotSupported ''MGET'')),
      Return None, Return None, Return None]
   \<and> index (snd (snd (Puts ascii_strings five_calls (fresh, NewBatch)))) = [0, 1, 0, 0, 1]
   \<and> map node (batches (snd (snd (Puts ascii_strings five_calls (fresh, NewBatch)))))
       = [Some 1, Some 2]"
  by (simp add: five_calls_def Put_def resolve_def enqueue_def NewBatch_def fresh_def stub_def
      ascii_simps)

theorem Puts_index_invariant_witness:
  "length (index (snd (snd (Puts ascii_strings five_calls (fresh, NewBatch)))))
     = count_list (fst (Puts ascii_strings five_calls (fresh, NewBatch))) (Return None)
   \<and> index (snd (snd (Puts ascii_strings five_calls (fresh, NewBatch)))) = [0, 1, 0, 0, 1]
   \<and> map node (batches (snd (snd (Puts ascii_strings five_calls (fresh, NewBatch)))))
       = [Some 1, Some 2]"
proof -
  obtain rs c' b where p: "Puts ascii_strings five_calls (fresh, NewBatch) = (rs, c', b)"
    by (cases "Puts ascii_strings five_calls (fresh, NewBatch)")
  from Puts_index_invariant [OF p] five_calls_run p show ?thesis by simp
qed

section \<open>The walk over the index\<close>

lemma slot_0 [simp]: "slot (i # is) 0 = 0"
  by (simp add: slot_def)

lemma slot_Suc: "slot (i # is) (Suc k) = (if i = is ! k then Suc (slot is k) else slot is k)"
  by (simp add: slot_def)

lemma reconstruct_ok:
  assumes "\<forall>i \<in> set idx. i < length bs \<and> err (bs ! i) = None"
      and "\<forall>g<length bs. count_list idx g \<le> length (cmds (bs ! g))"
  shows "\<exists>rep. fst (reconstruct bs idx acc) = Return (acc @ rep, None)
             \<and> length rep = length idx
             \<and> (\<forall>k<length idx. rep ! k = reply (cmds (bs ! (idx ! k)) ! slot idx k))"
  using assms
proof (induction idx arbitrary: bs acc)
  case Nil
  then show ?case by simp
next
  case (Cons i "is")
  from Cons.prems(1) have i: "i < length bs" and ei: "err (bs ! i) = None" by simp_all
  from Cons.prems(2) i have "count_list (i # is) i \<le> length (cmds (bs ! i))" by blast
  then obtain c cs where ccs: "cmds (bs ! i) = c # cs" by (cases "cmds (bs ! i)") simp_all
  define bs' where "bs' = bs[i := (bs ! i)\<lparr>cmds := cs\<rparr>]"
  have len': "length bs' = length bs" by (simp add: bs'_def)
  have err': "err (bs' ! g) = err (bs ! g)" if "g < length bs" for g
    using that by (cases "g = i") (simp_all add: bs'_def)
  have cmds': "cmds (bs' ! g) = (if g = i then cs else cmds (bs ! g))" if "g < length bs" for g
    using that by (cases "g = i") (simp_all add: bs'_def)
  have p1: "\<forall>j \<in> set is. j < length bs' \<and> err (bs' ! j) = None"
    using Cons.prems(1) err' by (simp add: len')
  have p2: "\<forall>g<length bs'. count_list is g \<le> length (cmds (bs' ! g))"
  proof (intro allI impI)
    fix g assume "g < length bs'"
    then have g: "g < length bs" by (simp add: len')
    from Cons.prems(2) g have "count_list (i # is) g \<le> length (cmds (bs ! g))" by blast
    with cmds' [OF g] ccs show "count_list is g \<le> length (cmds (bs' ! g))"
      by (cases "g = i") simp_all
  qed
  from Cons.IH [OF p1 p2, of "acc @ [reply c]"]
  obtain rep' where r1: "fst (reconstruct bs' is (acc @ [reply c])) = Return ((acc @ [reply c]) @ rep', None)"
    and r2: "length rep' = length is"
    and r3: "\<forall>k<length is. rep' ! k = reply (cmds (bs' ! (is ! k)) ! slot is k)" by blast
  have step: "reconstruct bs (i # is) acc = reconstruct bs' is (acc @ [reply c])"
    using i ei ccs by (simp add: bs'_def)
  have nth: "(reply c # rep') ! k = reply (cmds (bs ! ((i # is) ! k)) ! slot (i # is) k)"
    if "k < length (i # is)" for k
  proof (cases k)
    case 0
    then show ?thesis by (simp add: ccs)
  next
    case (Suc k')
    with that have k': "k' < length is" by simp
    then have "is ! k' \<in> set is" by simp
    with Cons.prems(1) have g: "is ! k' < length bs" by simp
    from r3 k' have "rep' ! k' = reply (cmds (bs' ! (is ! k')) ! slot is k')" by blast
    with cmds' [OF g] ccs show ?thesis by (cases "is ! k' = i") (auto simp: Suc slot_Suc)
  qed
  from r1 r2 nth show ?case unfolding step
    by (intro exI [of _ "reply c # rep'"]) simp
qed

lemma reconstruct_err:
  assumes "\<forall>i \<in> set idx. i < length bs"
      and "\<forall>g<length bs. count_list idx g \<le> length (cmds (bs ! g))"
      and "k < length idx" "err (bs ! (idx ! k)) = Some e"
      and "\<forall>j<k. err (bs ! (idx ! j)) = None"
  shows "fst (reconstruct bs idx acc) = Return ([], Some e)"
  using assms
proof (induction idx arbitrary: bs acc k)
  case Nil
  then show ?case by simp
next
  case (Cons i "is")
  from Cons.prems(1) have i: "i < length bs" by simp
  show ?case
  proof (cases k)
    case 0
    with Cons.prems(4) i show ?thesis by simp
  next
    case (Suc k')
    with Cons.prems(5) have ei: "err (bs ! i) = None" by auto
    from Cons.prems(2) i have "count_list (i # is) i \<le> length (cmds (bs ! i))" by blast
    then obtain c cs where ccs: "cmds (bs ! i) = c # cs" by (cases "cmds (bs ! i)") simp_all
    define bs' where "bs' = bs[i := (bs ! i)\<lparr>cmds := cs\<rparr>]"
    have len': "length bs' = length bs" by (simp add: bs'_def)
    have err': "err (bs' ! g) = err (bs ! g)" if "g < length bs" for g
      using that by (cases "g = i") (simp_all add: bs'_def)
    have cmds': "cmds (bs' ! g) = (if g = i then cs else cmds (bs ! g))" if "g < length bs" for g
      using that by (cases "g = i") (simp_all add: bs'_def)
    have p1: "\<forall>j \<in> set is. j < length bs'" using Cons.prems(1) by (simp add: len')
    have p2: "\<forall>g<length bs'. count_list is g \<le> length (cmds (bs' ! g))"
    proof (intro allI impI)
      fix g assume "g < length bs'"
      then have g: "g < length bs" by (simp add: len')
      from Cons.prems(2) g have "count_list (i # is) g \<le> length (cmds (bs ! g))" by blast
      with cmds' [OF g] ccs show "count_list is g \<le> length (cmds (bs' ! g))"
        by (cases "g = i") simp_all
    qed
    from Cons.prems(3) Suc have p3: "k' < length is" by simp
    then have "is ! k' \<in> set is" by simp
    with Cons.prems(1) have "is ! k' < length bs" by simp
    from err' [OF this] Cons.prems(4) Suc have p4: "err (bs' ! (is ! k')) = Some e" by simp
    have p5: "\<forall>j<k'. err (bs' ! (is ! j)) = None"
    proof (intro allI impI)
      fix j assume j: "j < k'"
      with p3 have "is ! j \<in> set is" by simp
      with Cons.prems(1) have "is ! j < length bs" by simp
      from err' [OF this] Cons.prems(5) j Suc show "err (bs' ! (is ! j)) = None" by auto
    qed
    have step: "reconstruct bs (i # is) acc = reconstruct bs' is (acc @ [reply c])"
      using i ei ccs by (simp add: bs'_def)
    from Cons.IH [OF p1 p2 p3 p4 p5] show ?thesis unfolding step .
  qed
qed

section \<open>\<^verbatim>\<open>RunBatch\<close>: executors and join\<close>

lemma length_run_executors [simp]: "length (run_executors X bs) = length bs"
  by (simp add: run_executors_def)

lemma run_executors_nth:
  "g < length bs \<Longrightarrow> run_executors X bs ! g = fst (doBatch (X g) (bs ! g))"
  by (simp add: run_executors_def nth_enumerate_eq)

lemma doBatch_length_cmds [simp]: "length (cmds (fst (doBatch X g))) = length (cmds g)"
proof (cases rule: doBatch_paths [where X = X and g = g])
  case (no_conn e)
  from doBatch_no_conn [OF this] show ?thesis by simp
next
  case (flush_failed cn e)
  from doBatch_flush_failed [OF this] show ?thesis by simp
next
  case (read_failed cn k e)
  from doBatch_read_failed [OF this] read_failed(3) show ?thesis by simp
next
  case (success cn)
  from doBatch_success [OF this] show ?thesis by simp
qed

lemma doBatch_done [simp]: "done_chan (fst (doBatch X g)) = Suc (done_chan g)"
proof (cases rule: doBatch_paths [where X = X and g = g])
  case (no_conn e)
  from doBatch_no_conn [OF this] show ?thesis by simp
next
  case (flush_failed cn e)
  from doBatch_flush_failed [OF this] show ?thesis by simp
next
  case (read_failed cn k e)
  from doBatch_read_failed [OF this] show ?thesis by simp
next
  case (success cn)
  from doBatch_success [OF this] show ?thesis by simp
qed

lemma doBatch_no_error:
  assumes "err (fst (doBatch X g)) = None"
  shows "flush X = None \<and> reads_ok (receive X) (length (cmds g))
       \<and> cmds (fst (doBatch X g)) = assigned (receive X) 0 (cmds g)"
proof (cases rule: doBatch_paths [where X = X and g = g])
  case (no_conn e)
  from doBatch_no_conn [OF this] assms show ?thesis by simp
next
  case (flush_failed cn e)
  from doBatch_flush_failed [OF this] assms show ?thesis by simp
next
  case (read_failed cn k e)
  from doBatch_read_failed [OF this] assms show ?thesis by simp
next
  case (success cn)
  from doBatch_success [OF this] success show ?thesis by simp
qed

lemma join_signalled:
  "\<forall>g \<in> set bs. done_chan g \<noteq> 0 \<Longrightarrow>
     join bs = Some (map (\<lambda>g. g\<lparr>done_chan := done_chan g - 1\<rparr>) bs)"
  by (induction bs) simp_all

lemma join_run_executors: "join (run_executors X bs) = Some (settled X bs)"
proof -
  have "\<forall>g \<in> set (run_executors X bs). done_chan g \<noteq> 0"
    by (auto simp: run_executors_def)
  from join_signalled [OF this] show ?thesis by (simp add: settled_def)
qed

lemma RunBatch_settled:
  "RunBatch X b =
     (case reconstruct (settled X (batches b)) (index b) [] of
        (r, bs) \<Rightarrow> (r, b\<lparr>batches := bs\<rparr>))"
  by (simp add: RunBatch_def Let_def join_run_executors)

lemma length_settled [simp]: "length (settled X bs) = length bs"
  by (simp add: settled_def)

lemma settled_nth:
  "g < length bs \<Longrightarrow>
     err (settled X bs ! g) = err (fst (doBatch (X g) (bs ! g)))
     \<and> cmds (settled X bs ! g) = cmds (fst (doBatch (X g) (bs ! g)))"
  by (simp add: settled_def run_executors_nth)

lemma built_settled_counts:
  assumes "built J b"
  shows "\<forall>i \<in> set (index b). i < length (settled X (batches b))"
    and "\<forall>g<length (settled X (batches b)).
           count_list (index b) g \<le> length (cmds (settled X (batches b) ! g))"
proof -
  show "\<forall>i \<in> set (index b). i < length (settled X (batches b))"
    using built_index_valid [OF assms] by simp
  show "\<forall>g<length (settled X (batches b)).
           count_list (index b) g \<le> length (cmds (settled X (batches b) ! g))"
  proof (intro allI impI)
    fix g assume "g < length (settled X (batches b))"
    then have g: "g < length (batches b)" by simp
    from settled_nth [OF g, of X] built_group [OF assms g]
    show "count_list (index b) g \<le> length (cmds (settled X (batches b) ! g))" by simp
  qed
qed

lemma built_group_indexed:
  assumes "built J b" "g < length (batches b)"
  shows "\<exists>i<length (index b). index b ! i = g"
proof -
  from assms(2) have "node (batches b ! g) \<in> node ` set (batches b)" by simp
  with built_nodes [OF assms(1)] have "node (batches b ! g) \<in> fst ` set J" by simp
  then obtain i where i: "i < length J" and n: "fst (J ! i) = node (batches b ! g)"
    by (auto simp: in_set_conv_nth)
  from built_entry [OF assms(1) i] n
  have "index b ! i < length (batches b)"
    and "node (batches b ! (index b ! i)) = node (batches b ! g)" by simp_all
  from built_same_node [OF assms(1) this(1) assms(2) this(2)] i built_length [OF assms(1)]
  show ?thesis by auto
qed

section \<open>\<^verbatim>\<open>RunBatch\<close>: the replies\<close>

lemma RunBatch_fst:
  "fst (RunBatch X b) = fst (reconstruct (settled X (batches b)) (index b) [])"
  by (cases "reconstruct (settled X (batches b)) (index b) []") (simp add: RunBatch_settled)

text \<open>
  C1. Take the batch built from a new one by any sequence of \<^verbatim>\<open>Put\<close> calls, routed to any
  nodes. If no executor leaves a group-level error, \<^verbatim>\<open>RunBatch\<close> returns a nil error and a
  reply list with one element for every call that returned nil. Element \<open>i\<close> is the reply
  of the \<open>i\<close>-th such call: that call's command sits in group \<open>index ! i\<close>, on the node it
  was routed to, at the place \<open>slot\<close> of that group's queue, and the element is the reply
  the executor read at that place on that group's connection. These are the heads that
  the walk over the index pops.
\<close>

theorem RunBatch_replies_in_submission_order:
  assumes "Puts L calls (c, NewBatch) = (rs, c', b)"
      and "\<forall>g<length (batches b). err (fst (doBatch (X g) (batches b ! g))) = None"
  shows "\<exists>rep. fst (RunBatch X b) = Return (rep, None)
           \<and> length rep = count_list rs (Return None)
           \<and> length rep = length (journal L calls c)
           \<and> (\<forall>i<length rep.
                 index b ! i < length (batches b)
                 \<and> node (batches b ! (index b ! i)) = fst (journal L calls c ! i)
                 \<and> slot (index b) i < length (cmds (batches b ! (index b ! i)))
                 \<and> cmd (cmds (batches b ! (index b ! i)) ! slot (index b) i)
                     = fst (snd (journal L calls c ! i))
                 \<and> args (cmds (batches b ! (index b ! i)) ! slot (index b) i)
                     = snd (snd (journal L calls c ! i))
                 \<and> receive (X (index b ! i)) (slot (index b) i) = Inr (rep ! i)
                 \<and> reply (cmds (fst (doBatch (X (index b ! i)) (batches b ! (index b ! i))))
                            ! slot (index b) i) = rep ! i)"
proof -
  define J where "J = journal L calls c"
  from Puts_built [OF built_NewBatch assms(1)]
  have b: "built J b" and n: "count_list rs (Return None) = length J" by (simp_all add: J_def)
  have len: "length (index b) = length J" using b by (rule built_length)
  have ok: "\<forall>i \<in> set (index b). i < length (settled X (batches b))
              \<and> err (settled X (batches b) ! i) = None"
  proof
    fix i assume "i \<in> set (index b)"
    from built_index_valid [OF b this] have i: "i < length (batches b)" .
    with settled_nth [OF i, of X] assms(2)
    show "i < length (settled X (batches b)) \<and> err (settled X (batches b) ! i) = None" by simp
  qed
  from reconstruct_ok [OF ok built_settled_counts(2) [OF b], of "[]"]
  obtain rep where r1: "fst (reconstruct (settled X (batches b)) (index b) []) = Return (rep, None)"
    and r2: "length rep = length (index b)"
    and r3: "\<forall>k<length (index b).
               rep ! k = reply (cmds (settled X (batches b) ! (index b ! k)) ! slot (index b) k)"
    by auto
  have run: "fst (RunBatch X b) = Return (rep, None)"
    using r1 by (simp add: RunBatch_fst)
  have each: "index b ! i < length (batches b)
            \<and> node (batches b ! (index b ! i)) = fst (J ! i)
            \<and> slot (index b) i < length (cmds (batches b ! (index b ! i)))
            \<and> cmd (cmds (batches b ! (index b ! i)) ! slot (index b) i) = fst (snd (J ! i))
            \<and> args (cmds (batches b ! (index b ! i)) ! slot (index b) i) = snd (snd (J ! i))
            \<and> receive (X (index b ! i)) (slot (index b) i) = Inr (rep ! i)
            \<and> reply (cmds (fst (doBatch (X (index b ! i)) (batches b ! (index b ! i))))
                       ! slot (index b) i) = rep ! i"
    if "i < length rep" for i
  proof -
    from that r2 len have i: "i < length J" by simp
    define g where "g = index b ! i"
    define j where "j = slot (index b) i"
    from built_entry [OF b i]
    have g: "g < length (batches b)" and ng: "node (batches b ! g) = fst (J ! i)"
      and cj: "cmds (batches b ! g) ! j =
                 \<lparr>cmd = fst (snd (J ! i)), args = snd (snd (J ! i)), reply = INil, cmd_err = None\<rparr>"
      by (simp_all add: g_def j_def)
    from built_slot [OF b i] have j: "j < length (cmds (batches b ! g))" by (simp add: g_def j_def)
    from assms(2) g have "err (fst (doBatch (X g) (batches b ! g))) = None" by blast
    from doBatch_no_error [OF this]
    have rd: "reads_ok (receive (X g)) (length (cmds (batches b ! g)))"
      and as: "cmds (fst (doBatch (X g) (batches b ! g))) = assigned (receive (X g)) 0 (cmds (batches b ! g))"
      by simp_all
    from rd j have "\<not> isl (receive (X g) j)" by (simp add: reads_ok_def)
    then have pr: "receive (X g) j = Inr (projr (receive (X g) j))" by (cases "receive (X g) j") simp_all
    from as nth_assigned [OF j, of "receive (X g)" 0]
    have rp: "reply (cmds (fst (doBatch (X g) (batches b ! g))) ! j) = projr (receive (X g) j)" by simp
    from r3 that r2 have "rep ! i = reply (cmds (settled X (batches b) ! g) ! j)"
      by (simp add: g_def j_def)
    with settled_nth [OF g, of X] rp
    have ri: "rep ! i = projr (receive (X g) j)" by simp
    from g ng j cj pr rp ri show ?thesis unfolding g_def [symmetric] j_def [symmetric] by simp
  qed
  from run r2 len n each show ?thesis unfolding J_def [symmetric]
    by (intro exI [of _ rep]) simp
qed

lemma five_calls_batch:
  "Puts ascii_strings five_calls (fresh, NewBatch) =
     ([Return None, Return None, Return (Some (ErrNotSupported ''MGET'')),
       Return None, Return None, Return None], fresh, five_batch)"
  by (simp add: five_calls_def Put_def resolve_def enqueue_def NewBatch_def fresh_def stub_def
      ascii_simps five_batch_def)

lemma echo_no_error: "\<forall>g<length (batches five_batch). err (fst (doBatch (echo g) (batches five_batch ! g))) = None"
proof (intro allI impI)
  fix g assume "g < length (batches five_batch)"
  then have "g = 0 \<or> g = 1" by (auto simp: five_batch_def)
  then show "err (fst (doBatch (echo g) (batches five_batch ! g))) = None"
    by (auto simp: five_batch_def doBatch_def echo_def)
qed

lemma RunBatch_echo:
  "fst (RunBatch echo five_batch) = Return ([IInt 0, IInt 10, IInt 1, IInt 2, IInt 11], None)"
  by (simp add: RunBatch_def run_executors_def doBatch_def echo_def five_batch_def Let_def)

theorem RunBatch_replies_in_submission_order_witness:
  "Puts ascii_strings five_calls (fresh, NewBatch) =
     ([Return None, Return None, Return (Some (ErrNotSupported ''MGET'')),
       Return None, Return None, Return None], fresh, five_batch)
   \<and> length (batches five_batch) = 2
   \<and> err (fst (doBatch (echo 0) (batches five_batch ! 0))) = None
   \<and> err (fst (doBatch (echo 1) (batches five_batch ! 1))) = None
   \<and> (\<exists>rep. fst (RunBatch echo five_batch) = Return (rep, None) \<and> length rep = 5)
   \<and> fst (RunBatch echo five_batch) = Return ([IInt 0, IInt 10, IInt 1, IInt 2, IInt 11], None)"
proof -
  from RunBatch_replies_in_submission_order [OF five_calls_batch echo_no_error]
  obtain rep where "fst (RunBatch echo five_batch) = Return (rep, None)"
    and "length rep = count_list [Return None, Return None, Return (Some (ErrNotSupported ''MGET'')),
       Return None, Return None, Return None] (Return None)" by blast
  then have "\<exists>rep. fst (RunBatch echo five_batch) = Return (rep, None) \<and> length rep = 5" by simp
  moreover have "length (batches five_batch) = 2" by (simp add: five_batch_def)
  moreover from echo_no_error this
  have "err (fst (doBatch (echo 0) (batches five_batch ! 0))) = None"
    and "err (fst (doBatch (echo 1) (batches five_batch ! 1))) = None" by simp_all
  ultimately show ?thesis using five_calls_batch RunBatch_echo by blast
qed

text \<open>
  C5. Take the batch built from a new one by any sequence of \<^verbatim>\<open>Put\<close> calls. If some
  executor leaves a group-level error on its group, the walk over the index reaches a
  first entry \<open>k\<close> whose group carries an error, and \<^verbatim>\<open>RunBatch\<close> returns the nil reply
  list with the error of that group: the replies collected for the entries before \<open>k\<close>
  are dropped.
\<close>

theorem RunBatch_first_error:
  assumes "Puts L calls (c, NewBatch) = (rs, c', b)"
      and "g < length (batches b)" "err (fst (doBatch (X g) (batches b ! g))) \<noteq> None"
  shows "\<exists>k e. k < length (index b)
           \<and> err (fst (doBatch (X (index b ! k)) (batches b ! (index b ! k)))) = Some e
           \<and> (\<forall>j<k. err (fst (doBatch (X (index b ! j)) (batches b ! (index b ! j)))) = None)
           \<and> fst (RunBatch X b) = Return ([], Some e)"
proof -
  from Puts_built [OF built_NewBatch assms(1)]
  have b: "built (journal L calls c) b" by simp
  define failed where
    "failed k \<longleftrightarrow> k < length (index b)
        \<and> err (fst (doBatch (X (index b ! k)) (batches b ! (index b ! k)))) \<noteq> None" for k
  from built_group_indexed [OF b assms(2)] assms(3) have ex: "\<exists>k. failed k"
    by (auto simp: failed_def)
  define k where "k = (LEAST k. failed k)"
  from ex have fk: "failed k" unfolding k_def by (rule LeastI_ex)
  then have k: "k < length (index b)" by (simp add: failed_def)
  from fk obtain e where
    e: "err (fst (doBatch (X (index b ! k)) (batches b ! (index b ! k)))) = Some e"
    by (auto simp: failed_def)
  have before: "err (fst (doBatch (X (index b ! j)) (batches b ! (index b ! j)))) = None"
    if "j < k" for j
  proof -
    from that have "\<not> failed j" unfolding k_def by (rule not_less_Least)
    with that k show ?thesis by (simp add: failed_def)
  qed
  have valid: "index b ! j < length (batches b)" if "j < length (index b)" for j
    using built_index_valid [OF b, of "index b ! j"] that by simp
  from settled_nth [OF valid [OF k], of X] e
  have e': "err (settled X (batches b) ! (index b ! k)) = Some e" by simp
  have before': "\<forall>j<k. err (settled X (batches b) ! (index b ! j)) = None"
  proof (intro allI impI)
    fix j assume j: "j < k"
    with k have "j < length (index b)" by simp
    from settled_nth [OF valid [OF this], of X] before [OF j]
    show "err (settled X (batches b) ! (index b ! j)) = None" by simp
  qed
  from reconstruct_err [OF built_settled_counts [OF b] k e' before', of "[]"]
  have "fst (RunBatch X b) = Return ([], Some e)" by (simp add: RunBatch_fst)
  with k e before show ?thesis by blast
qed

lemma flush_fails_0_error:
  "err (fst (doBatch (flush_fails_0 0) (batches five_batch ! 0))) = Some (ErrExternal ''broken pipe'')
   \<and> err (fst (doBatch (flush_fails_0 1) (batches five_batch ! 1))) = None"
  by (simp add: five_batch_def doBatch_def flush_fails_0_def)

lemma RunBatch_flush_fails_0:
  "fst (RunBatch flush_fails_0 five_batch) = Return ([], Some (ErrExternal ''broken pipe''))"
  by (simp add: RunBatch_def run_executors_def doBatch_def flush_fails_0_def five_batch_def Let_def)

theorem RunBatch_first_error_witness:
  "Puts ascii_strings five_calls (fresh, NewBatch) =
     ([Return None, Return None, Return (Some (ErrNotSupported ''MGET'')),
       Return None, Return None, Return None], fresh, five_batch)
   \<and> 0 < length (batches five_batch)
   \<and> err (fst (doBatch (flush_fails_0 0) (batches five_batch ! 0))) \<noteq> None
   \<and> (\<exists>e. fst (RunBatch flush_fails_0 five_batch) = Return ([], Some e))
   \<and> fst (RunBatch flush_fails_0 five_batch) = Return ([], Some (ErrExternal ''broken pipe''))"
proof -
  have 1: "0 < length (batches five_batch)" by (simp add: five_batch_def)
  have 2: "err (fst (doBatch (flush_fails_0 0) (batches five_batch ! 0))) \<noteq> None"
    using flush_fails_0_error by simp
  from RunBatch_first_error [where X = flush_fails_0 and g = 0, OF five_calls_batch 1 2]
  have "\<exists>e. fst (RunBatch flush_fails_0 five_batch) = Return ([], Some e)" by blast
  with five_calls_batch 1 2 RunBatch_flush_fails_0 show ?thesis by blast
qed

end
